theory Spec2Isabelle
  imports Main "HOL-Library.Word" "HOL-Library.Sublist"
begin

unbundle bit_operations_syntax

section \<open>The buffer-to-buffer decoder (package lzss, type Decoder)\<close>

subsection \<open>Constants, errors and Go integers\<close>

type_synonym byte = "8 word"

text \<open>Go: \<^verbatim>\<open>type Order int\<close> with \<^verbatim>\<open>LSB Order = iota\<close> and \<^verbatim>\<open>MSB\<close>.\<close>

type_synonym Order = int

definition LSB :: Order where "LSB = 0"
definition MSB :: Order where "MSB = 1"

definition NFlags :: nat where "NFlags = 8"
definition NOffsetBits :: nat where "NOffsetBits = 12"
definition NLengthBits :: nat where "NLengthBits = 4"

definition OffsetMask :: byte where "OffsetMask = push_bit NLengthBits 1 - 1"
definition NReferenceBytes :: nat where "NReferenceBytes = (NOffsetBits + NFlags) div 8"
definition ThresholdMin :: int where "ThresholdMin = int (NReferenceBytes + NFlags div 8)"
definition DefaultThreshold :: int where "DefaultThreshold = ThresholdMin"

datatype error =
  ErrClosed | ErrChunkLength | ErrOffset | ErrOrder | ErrThreshold | ErrNilParameter
  | ErrUnexpectedEOF

text \<open>
  Go's \<^verbatim>\<open>int\<close> is a 64-bit two's complement integer on the usual platforms: the sum
  or difference of two of them is reduced into \<open>[-2^63, 2^63)\<close>. Indices and lengths
  of slices never leave that range; the values returned by an injected reference function
  and the threshold may be anywhere in it, so the arithmetic on them is wrapped.
\<close>

definition go_int :: "int \<Rightarrow> int" where
  "go_int x = (x + 2 ^ 63) mod 2 ^ 64 - 2 ^ 63"

definition MaxInt :: int where "MaxInt = 2 ^ 63 - 1"

subsection \<open>Flag and reference functions\<close>

type_synonym FlagFuncType = "byte \<Rightarrow> nat \<Rightarrow> bool"

text \<open>A reference function may index its argument out of range; \<open>None\<close> is that panic.\<close>

type_synonym ReferenceFuncType = "byte list \<Rightarrow> Order \<Rightarrow> (int \<times> int) option"

definition DefaultFlagFunc :: FlagFuncType where
  "DefaultFlagFunc flags pos = (push_bit pos flags AND 0x80 = 0)"

definition DefaultReferenceFunc :: ReferenceFuncType where
  "DefaultReferenceFunc refBytes order =
     (if length refBytes < 2 then None
      else
        let lo = (if order = LSB then refBytes ! 0 else refBytes ! 1);
            hi = (if order = LSB then refBytes ! 1 else refBytes ! 0);
            offset = uint (push_bit 8 (ucast (hi AND OffsetMask) :: 16 word) OR ucast lo);
            length = uint (drop_bit NLengthBits hi)
        in Some (length, offset))"

text \<open>
  The streaming revision of the package (reader.go with the injected functions) has a
  \<^verbatim>\<open>DefaultReferenceFunc\<close> of its own, which splits the 16-bit code the other way.
\<close>

definition DefaultReferenceFunc_reader :: ReferenceFuncType where
  "DefaultReferenceFunc_reader refBytes order =
     (if length refBytes < 2 then None
      else
        let lo = (if order = LSB then refBytes ! 0 else refBytes ! 1);
            hi = (if order = LSB then refBytes ! 1 else refBytes ! 0);
            ref = (push_bit 8 (ucast hi :: 16 word) OR ucast lo);
            length = uint (ref AND (push_bit NLengthBits 1 - 1));
            offset = uint (drop_bit NLengthBits ref)
        in Some (length, offset))"

text \<open>
  The specification's 16-bit code: the two reference bytes in stream order \<open>b0\<close>,
  \<open>b1\<close>, the first one the low byte under LSB and the high byte under MSB.
\<close>

definition ref_code :: "byte \<Rightarrow> byte \<Rightarrow> Order \<Rightarrow> 16 word" where
  "ref_code b0 b1 ord =
     (if ord = LSB then push_bit 8 (ucast b1) OR ucast b0 else push_bit 8 (ucast b0) OR ucast b1)"

subsection \<open>The decoder and its constructor\<close>

record Decoder =
  order :: Order
  threshold :: int
  flagFunc :: FlagFuncType
  referenceFunc :: ReferenceFuncType

text \<open>A nil function value is \<open>None\<close>.\<close>

definition NewCustomDecoder ::
  "Order \<Rightarrow> FlagFuncType option \<Rightarrow> ReferenceFuncType option \<Rightarrow> int \<Rightarrow> error + Decoder" where
  "NewCustomDecoder ord ff rf thr =
     (if ord \<noteq> LSB \<and> ord \<noteq> MSB then Inl ErrOrder
      else if ff = None \<or> rf = None then Inl ErrNilParameter
      else if thr < ThresholdMin then Inl ErrThreshold
      else Inr \<lparr>order = ord, threshold = thr, flagFunc = the ff, referenceFunc = the rf\<rparr>)"

definition NewDecoder :: "Order \<Rightarrow> error + Decoder" where
  "NewDecoder ord =
     NewCustomDecoder ord (Some DefaultFlagFunc) (Some DefaultReferenceFunc) DefaultThreshold"

text \<open>The decoder NewDecoder builds for a valid order.\<close>

definition defaultDecoder :: "Order \<Rightarrow> Decoder" where
  "defaultDecoder ord =
     \<lparr>order = ord, threshold = DefaultThreshold, flagFunc = DefaultFlagFunc,
      referenceFunc = DefaultReferenceFunc\<rparr>"


definition hugeReferenceFunc :: ReferenceFuncType where
  "hugeReferenceFunc refBytes ord = Some (MaxInt, 0)"

definition invertedFlagFunc :: FlagFuncType where
  "invertedFlagFunc flags pos = (push_bit pos flags AND 0x80 \<noteq> 0)"

subsection \<open>Decode\<close>

text \<open>What a call of Decode does: it panics, or returns the output and an error (or nil).\<close>

datatype result = Panic | Return "byte list" "error option"

text \<open>
  The loop state is the read index \<open>r\<close>, the write count \<open>w\<close> and the output \<open>out\<close>;
  an iteration either goes on with a new state or leaves Decode. The read index is an
  index into the input and \<open>w\<close> counts the bytes of \<open>out\<close> (\<open>w = len(out)\<close> in every
  state Decode reaches), so \<open>r + 1\<close>, \<open>w + 1\<close> and \<open>w + n\<close> are sums of lengths and are
  not wrapped; the sums on the values of the reference function are. A slice expression
  \<open>s[a:b]\<close> panics unless \<open>0 \<le> a \<le> b \<le> cap(s)\<close>, and \<open>s[a:]\<close> unless \<open>a \<le> len(s)\<close>.
\<close>

datatype flow = Continue nat int "byte list" | Stop result

text \<open>One iteration of the inner loop: sub-round \<open>i\<close> of the flag byte \<open>flags\<close>.\<close>

definition subround ::
  "Decoder \<Rightarrow> byte list \<Rightarrow> byte \<Rightarrow> nat \<Rightarrow> nat \<Rightarrow> int \<Rightarrow> byte list \<Rightarrow> flow" where
  "subround d inp flags i r w out =
     (if flagFunc d flags i then
        (if r \<ge> length inp then Stop (Return out (Some ErrUnexpectedEOF))
         else Continue (r + 1) (w + 1) (out @ [inp ! r]))
      else
        (if r + NReferenceBytes > length inp then Stop (Return out (Some ErrUnexpectedEOF))
         else
           (case referenceFunc d (take NReferenceBytes (drop r inp)) (order d) of
              None \<Rightarrow> Stop Panic
            | Some (n0, offset) \<Rightarrow>
                if n0 < 0 then Stop (Return out (Some ErrChunkLength))
                else
                  let n = go_int (n0 + threshold d);
                      pos = go_int ((w - 1) - offset)
                  in
                    if offset < 0 \<or> pos < 0 then Stop (Return out (Some ErrOffset))
                    else if go_int (pos + n) > int (length out) then
                      (if pos > int (length out) then Stop Panic
                       else Stop (Return (out @ drop (nat pos) out) (Some ErrChunkLength)))
                    else if go_int (pos + n) < pos then Stop Panic
                    else
                      Continue (r + NReferenceBytes) (w + n)
                        (out @ take (nat (go_int (pos + n)) - nat pos) (drop (nat pos) out)))))"

text \<open>The inner loop \<^verbatim>\<open>for i := uint(0); i < NFlags; i++\<close>.\<close>

function subrounds ::
  "Decoder \<Rightarrow> byte list \<Rightarrow> byte \<Rightarrow> nat \<Rightarrow> nat \<Rightarrow> int \<Rightarrow> byte list \<Rightarrow> flow" where
  "subrounds d inp flags i r w out =
     (if i < NFlags then
        (case subround d inp flags i r w out of
           Stop res \<Rightarrow> Stop res
         | Continue r' w' out' \<Rightarrow> subrounds d inp flags (i + 1) r' w' out')
      else Continue r w out)"
  by pat_completeness auto
termination
  by (relation "measure (\<lambda>(d, inp, flags, i, r, w, out). NFlags - i)") auto

declare subrounds.simps [simp del]

lemma subround_mono:
  "subround d inp flags i r w out = Continue r' w' out' \<Longrightarrow> r \<le> r'"
  unfolding subround_def Let_def
  by (simp split: if_split_asm option.split_asm prod.split_asm)

lemma subrounds_mono:
  "subrounds d inp flags i r w out = Continue r' w' out' \<Longrightarrow> r \<le> r'"
proof (induction d inp flags i r w out rule: subrounds.induct)
  case (1 d inp flags i r w out)
  show ?case
  proof (cases "i < NFlags")
    case False
    with "1.prems" show ?thesis by (simp add: subrounds.simps [of d inp flags i])
  next
    case True
    then obtain r1 w1 out1 where s: "subround d inp flags i r w out = Continue r1 w1 out1"
      and rest: "subrounds d inp flags (i + 1) r1 w1 out1 = Continue r' w' out'"
      using "1.prems" by (simp add: subrounds.simps [of d inp flags i] split: flow.split_asm)
    from "1.IH"[OF True s rest] subround_mono[OF s] show ?thesis by simp
  qed
qed

text \<open>The outer loop \<^verbatim>\<open>for r < l\<close>, with the shortcut for a zero flag byte.\<close>

function Decode_loop :: "Decoder \<Rightarrow> byte list \<Rightarrow> nat \<Rightarrow> int \<Rightarrow> byte list \<Rightarrow> result" where
  "Decode_loop d inp r w out =
     (if r < length inp then
        (if inp ! r = 0 then
           (if (r + 1) + NFlags > length inp
            then Return (out @ drop (r + 1) inp) (Some ErrUnexpectedEOF)
            else Decode_loop d inp ((r + 1) + NFlags) (w + int NFlags)
                   (out @ take NFlags (drop (r + 1) inp)))
         else
           (case subrounds d inp (inp ! r) 0 (r + 1) w out of
              Stop res \<Rightarrow> res
            | Continue r' w' out' \<Rightarrow> Decode_loop d inp r' w' out'))
      else Return out None)"
  by pat_completeness auto
termination
proof (relation "measure (\<lambda>(d, inp, r, w, out). length inp - r)")
  show "wf (measure (\<lambda>(d, inp, r, w, out). length inp - r))" by simp
next
  fix d :: Decoder and inp :: "byte list" and r :: nat and w :: int and out :: "byte list"
  assume "r < length inp"
  then show "((d, inp, r + 1 + NFlags, w + int NFlags, out @ take NFlags (drop (r + 1) inp)),
              (d, inp, r, w, out)) \<in> measure (\<lambda>(d, inp, r, w, out). length inp - r)"
    by simp
next
  fix d :: Decoder and inp :: "byte list" and r :: nat and w :: int and out :: "byte list"
    and r' w' out'
  assume "r < length inp" and "subrounds d inp (inp ! r) 0 (r + 1) w out = Continue r' w' out'"
  then show "((d, inp, r', w', out'), (d, inp, r, w, out))
              \<in> measure (\<lambda>(d, inp, r, w, out). length inp - r)"
    using subrounds_mono by fastforce
qed

declare Decode_loop.simps [simp del]

definition Decode :: "Decoder \<Rightarrow> byte list \<Rightarrow> result" where
  "Decode d inp = Decode_loop d inp 0 0 []"

text \<open>
  The block boundaries of an input: the values the read index \<open>r\<close> has at the head of
  the outer loop, where Decode reads a flag byte. The recursion is that of the loop itself.
\<close>

function Decode_starts :: "Decoder \<Rightarrow> byte list \<Rightarrow> nat \<Rightarrow> int \<Rightarrow> byte list \<Rightarrow> nat list" where
  "Decode_starts d inp r w out =
     (if r < length inp then
        r # (if inp ! r = 0 then
               (if (r + 1) + NFlags > length inp then []
                else Decode_starts d inp ((r + 1) + NFlags) (w + int NFlags)
                       (out @ take NFlags (drop (r + 1) inp)))
             else
               (case subrounds d inp (inp ! r) 0 (r + 1) w out of
                  Stop res \<Rightarrow> []
                | Continue r' w' out' \<Rightarrow> Decode_starts d inp r' w' out'))
      else [])"
  by pat_completeness auto
termination
proof (relation "measure (\<lambda>(d, inp, r, w, out). length inp - r)")
  show "wf (measure (\<lambda>(d, inp, r, w, out). length inp - r))" by simp
next
  fix d :: Decoder and inp :: "byte list" and r :: nat and w :: int and out :: "byte list"
  assume "r < length inp"
  then show "((d, inp, r + 1 + NFlags, w + int NFlags, out @ take NFlags (drop (r + 1) inp)),
              (d, inp, r, w, out)) \<in> measure (\<lambda>(d, inp, r, w, out). length inp - r)"
    by simp
next
  fix d :: Decoder and inp :: "byte list" and r :: nat and w :: int and out :: "byte list"
    and r' w' out'
  assume "r < length inp" and "subrounds d inp (inp ! r) 0 (r + 1) w out = Continue r' w' out'"
  then show "((d, inp, r', w', out'), (d, inp, r, w, out))
              \<in> measure (\<lambda>(d, inp, r, w, out). length inp - r)"
    using subrounds_mono by fastforce
qed

declare Decode_starts.simps [simp del]

definition Decode_boundaries :: "Decoder \<Rightarrow> byte list \<Rightarrow> nat list" where
  "Decode_boundaries d inp = Decode_starts d inp 0 0 []"

text \<open>
  The trace of Decode on an input: the states (read index \<open>r\<close>, output so far) that
  the loop passes through, in order. A state is recorded at the head of the outer loop,
  at the head of each sub-round and after the last one. In a raw block, which the code
  appends in one step, a state is recorded in front of each of its bytes. The recursions
  are those of the sub-round loop and of the outer loop.
\<close>

function subrounds_trace ::
  "Decoder \<Rightarrow> byte list \<Rightarrow> byte \<Rightarrow> nat \<Rightarrow> nat \<Rightarrow> int \<Rightarrow> byte list \<Rightarrow> (nat \<times> byte list) list" where
  "subrounds_trace d inp flags i r w out =
     (r, out) #
     (if i < NFlags then
        (case subround d inp flags i r w out of
           Stop res \<Rightarrow> []
         | Continue r' w' out' \<Rightarrow> subrounds_trace d inp flags (i + 1) r' w' out')
      else [])"
  by pat_completeness auto
termination
  by (relation "measure (\<lambda>(d, inp, flags, i, r, w, out). NFlags - i)") auto

declare subrounds_trace.simps [simp del]

function Decode_trace ::
  "Decoder \<Rightarrow> byte list \<Rightarrow> nat \<Rightarrow> int \<Rightarrow> byte list \<Rightarrow> (nat \<times> byte list) list" where
  "Decode_trace d inp r w out =
     (r, out) #
     (if r < length inp then
        (if inp ! r = 0 then
           (if (r + 1) + NFlags > length inp then []
            else map (\<lambda>j. ((r + 1) + j, out @ take j (drop (r + 1) inp))) [0..<NFlags] @
                 Decode_trace d inp ((r + 1) + NFlags) (w + int NFlags)
                   (out @ take NFlags (drop (r + 1) inp)))
         else
           subrounds_trace d inp (inp ! r) 0 (r + 1) w out @
           (case subrounds d inp (inp ! r) 0 (r + 1) w out of
              Stop res \<Rightarrow> []
            | Continue r' w' out' \<Rightarrow> Decode_trace d inp r' w' out'))
      else [])"
  by pat_completeness auto
termination
proof (relation "measure (\<lambda>(d, inp, r, w, out). length inp - r)")
  show "wf (measure (\<lambda>(d, inp, r, w, out). length inp - r))" by simp
next
  fix d :: Decoder and inp :: "byte list" and r :: nat and w :: int and out :: "byte list"
  assume "r < length inp"
  then show "((d, inp, r + 1 + NFlags, w + int NFlags, out @ take NFlags (drop (r + 1) inp)),
              (d, inp, r, w, out)) \<in> measure (\<lambda>(d, inp, r, w, out). length inp - r)"
    by simp
next
  fix d :: Decoder and inp :: "byte list" and r :: nat and w :: int and out :: "byte list"
    and r' w' out'
  assume "r < length inp" and "subrounds d inp (inp ! r) 0 (r + 1) w out = Continue r' w' out'"
  then show "((d, inp, r', w', out'), (d, inp, r, w, out))
              \<in> measure (\<lambda>(d, inp, r, w, out). length inp - r)"
    using subrounds_mono by fastforce
qed

declare Decode_trace.simps [simp del]

text \<open>
  The output decoded from the first \<open>k\<close> bytes of an input: the output so far in the last
  state of the trace whose read index is at most \<open>k\<close>, that is, everything the items that
  end within the first \<open>k\<close> bytes have produced.
\<close>

definition trace_upto :: "(nat \<times> byte list) list \<Rightarrow> nat \<Rightarrow> byte list" where
  "trace_upto ms k = snd (last (filter (\<lambda>m. fst m \<le> k) ms))"

definition Decode_upto :: "Decoder \<Rightarrow> byte list \<Rightarrow> nat \<Rightarrow> byte list" where
  "Decode_upto d inp k = trace_upto (Decode_trace d inp 0 0 []) k"

text \<open>
  The general path, for comparison with the shortcut: the outer loop of Decode without
  the test for a zero flag byte, so that the flag function is consulted for each of the
  eight sub-rounds of every flag byte.
\<close>

function Decode_loop_general :: "Decoder \<Rightarrow> byte list \<Rightarrow> nat \<Rightarrow> int \<Rightarrow> byte list \<Rightarrow> result" where
  "Decode_loop_general d inp r w out =
     (if r < length inp then
        (case subrounds d inp (inp ! r) 0 (r + 1) w out of
           Stop res \<Rightarrow> res
         | Continue r' w' out' \<Rightarrow> Decode_loop_general d inp r' w' out')
      else Return out None)"
  by pat_completeness auto
termination
proof (relation "measure (\<lambda>(d, inp, r, w, out). length inp - r)")
  show "wf (measure (\<lambda>(d, inp, r, w, out). length inp - r))" by simp
next
  fix d :: Decoder and inp :: "byte list" and r :: nat and w :: int and out :: "byte list"
    and r' w' out'
  assume "r < length inp" and "subrounds d inp (inp ! r) 0 (r + 1) w out = Continue r' w' out'"
  then show "((d, inp, r', w', out'), (d, inp, r, w, out))
              \<in> measure (\<lambda>(d, inp, r, w, out). length inp - r)"
    using subrounds_mono by fastforce
qed

declare Decode_loop_general.simps [simp del]

definition Decode_general :: "Decoder \<Rightarrow> byte list \<Rightarrow> result" where
  "Decode_general d inp = Decode_loop_general d inp 0 0 []"

text \<open>A decoder for a format of the opposite flag polarity, otherwise the default one.\<close>

definition invertedDecoder :: Decoder where
  "invertedDecoder =
     \<lparr>order = MSB, threshold = DefaultThreshold, flagFunc = invertedFlagFunc,
      referenceFunc = DefaultReferenceFunc\<rparr>"

text \<open>
  A decoder whose reference function is total on NReferenceBytes-long arguments and
  bounded: the copy length it asks for (decoded length plus threshold) is at most \<open>B\<close>,
  and the offset is an \<^verbatim>\<open>int\<close>.
\<close>

definition bounded_references :: "Decoder \<Rightarrow> int \<Rightarrow> bool" where
  "bounded_references d B \<longleftrightarrow>
     (\<forall>bs. length bs = NReferenceBytes \<longrightarrow>
        (\<exists>n0 off. referenceFunc d bs (order d) = Some (n0, off) \<and>
                  n0 + threshold d \<le> B \<and> off \<le> MaxInt))"

section \<open>The streaming reader (reader.go)\<close>

text \<open>
  The streaming revision keeps its own constants; its threshold is a constant, written
  \<open>threshold_reader\<close> here because the buffer decoder has a field of that name.
\<close>

definition ctlWidth :: nat where "ctlWidth = 8"
definition offsetWidth :: nat where "offsetWidth = 12"
definition sizeWidth :: nat where "sizeWidth = 4"
definition threshold_reader :: nat where "threshold_reader = 2"

definition windowSize :: nat where "windowSize = 2 ^ offsetWidth"
definition flushBuffer :: nat where "flushBuffer = 2 * windowSize"
definition maxBytes :: nat where "maxBytes = threshold_reader + 2 ^ sizeWidth"
definition maxDecode :: nat where "maxDecode = ctlWidth * maxBytes"

text \<open>
  The errors a reader holds: \<^verbatim>\<open>io.EOF\<close>, \<^verbatim>\<open>io.ErrUnexpectedEOF\<close>, \<^verbatim>\<open>errClosed\<close>
  and the two errors made on the spot ("relative offset out of bounds", "unknown order").

  The state of a reader. The source \<open>d_r\<close> is the list of bytes it has still to
  deliver, after which every ReadByte answers \<^verbatim>\<open>io.EOF\<close>; \<open>d_calls\<close> counts the
  ReadByte calls made on it (it is not a field of the Go struct: it makes "no source
  I/O" a statement about the state). The array \<open>d_output\<close> has
  \<open>flushBuffer + maxDecode\<close> bytes, and \<open>d_toRead\<close> is the slice \<open>output[lo:hi]\<close>
  of it, kept as its two bounds since it shares the array.
\<close>

datatype ioerror = io_EOF | io_ErrUnexpectedEOF | errClosed | errRelativeOffset | errUnknownOrder

record decoder =
  d_r :: "byte list"
  d_calls :: nat
  d_order :: Order
  d_err :: "ioerror option"
  d_output :: "nat \<Rightarrow> byte"
  d_o :: int
  d_toRead :: "nat \<times> nat"

text \<open>\<^verbatim>\<open>d.r.ReadByte()\<close>: the next byte, or the zero byte and \<^verbatim>\<open>io.EOF\<close>.\<close>

definition ReadByte :: "decoder \<Rightarrow> decoder \<times> byte \<times> ioerror option" where
  "ReadByte d =
     (case d_r d of
        [] \<Rightarrow> (d\<lparr>d_calls := d_calls d + 1\<rparr>, 0, Some io_EOF)
      | b # bs \<Rightarrow> (d\<lparr>d_r := bs, d_calls := d_calls d + 1\<rparr>, b, None))"

text \<open>\<^verbatim>\<open>len(d.toRead)\<close> and the bytes of \<^verbatim>\<open>d.toRead\<close>, read from the shared array.\<close>

definition toRead_len :: "decoder \<Rightarrow> nat" where
  "toRead_len d = snd (d_toRead d) - fst (d_toRead d)"

definition toRead_bytes :: "decoder \<Rightarrow> byte list" where
  "toRead_bytes d = map (d_output d) [fst (d_toRead d) ..< snd (d_toRead d)]"

text \<open>
  \<^verbatim>\<open>flush\<close>: \<^verbatim>\<open>d.toRead = d.output[:d.o]; d.o = 0\<close>. The slice expression panics
  (\<open>None\<close>) unless \<open>0 \<le> d.o \<le> len(d.output)\<close>.
\<close>

definition flush :: "decoder \<Rightarrow> decoder option" where
  "flush d =
     (if 0 \<le> d_o d \<and> d_o d \<le> int (flushBuffer + maxDecode)
      then Some (d\<lparr>d_toRead := (0, nat (d_o d)), d_o := 0\<rparr>)
      else None)"

text \<open>
  A statement inside \<^verbatim>\<open>decode\<close> goes on to the next one (\<open>Go\<close>), returns from
  \<^verbatim>\<open>decode\<close> (\<open>Ret\<close>) or panics (\<open>Crash\<close>).

  A literal sub-round, \<^verbatim>\<open>d.output[d.o], d.err = d.r.ReadByte()\<close>: the byte is read
  first, and the assignment panics on an index outside the array.
\<close>

datatype step = Go decoder | Ret decoder | Crash

definition literal :: "decoder \<Rightarrow> step" where
  "literal d =
     (case ReadByte d of (d1, b, e) \<Rightarrow>
        if d_o d1 < 0 \<or> d_o d1 \<ge> int (flushBuffer + maxDecode) then Crash
        else
          let d2 = d1\<lparr>d_output := (d_output d1)(nat (d_o d1) := b), d_err := e\<rparr>
          in if e \<noteq> None then Ret d2 else Go (d2\<lparr>d_o := d_o d2 + 1\<rparr>))"

text \<open>
  \<^verbatim>\<open>copy(a[dst:dst+n], a[src:src+n])\<close> on one array: Go's \<^verbatim>\<open>copy\<close> moves the bytes as
  they were before the call, also where the two ranges overlap.

  A reference sub-round: two bytes, swapped under MSB, make the 16-bit code;
  \<open>n = code&(1<<sizeWidth-1) + threshold + 1\<close> and \<open>relOff = code>>4 + 1\<close> are computed
  on \<^verbatim>\<open>uint16\<close>; a negative \<open>pos = d.o - relOff\<close> is the offset error.
\<close>

definition copy_within :: "(nat \<Rightarrow> byte) \<Rightarrow> nat \<Rightarrow> nat \<Rightarrow> nat \<Rightarrow> (nat \<Rightarrow> byte)" where
  "copy_within a dst src n = (\<lambda>j. if dst \<le> j \<and> j < dst + n then a (src + (j - dst)) else a j)"

definition reference :: "decoder \<Rightarrow> step" where
  "reference d =
     (case ReadByte d of (d1, lo, e1) \<Rightarrow>
        if e1 \<noteq> None then Ret (d1\<lparr>d_err := e1\<rparr>)
        else
          (case ReadByte (d1\<lparr>d_err := e1\<rparr>) of (d2, hi, e2) \<Rightarrow>
             if e2 \<noteq> None then Ret (d2\<lparr>d_err := e2\<rparr>)
             else
               let d3 = d2\<lparr>d_err := e2\<rparr>;
                   lo' = (if d_order d3 = MSB then hi else lo);
                   hi' = (if d_order d3 = MSB then lo else hi);
                   code = (push_bit 8 (ucast hi' :: 16 word) OR ucast lo');
                   n = uint ((code AND (push_bit sizeWidth 1 - 1)) + of_nat threshold_reader + 1);
                   relOff = uint (drop_bit 4 code + 1);
                   pos = d_o d3 - relOff
               in
                 if pos < 0 then Ret (d3\<lparr>d_err := Some errRelativeOffset\<rparr>)
                 else if d_o d3 + n > int (flushBuffer + maxDecode) then Crash
                 else
                   Go (d3\<lparr>d_output := copy_within (d_output d3) (nat (d_o d3)) (nat pos) (nat n),
                          d_o := d_o d3 + n\<rparr>)))"

text \<open>The two loops of \<^verbatim>\<open>decode\<close>: eight literals after a zero control byte, and the
  general one, which tests the top bit of \<open>ctl\<close> and shifts it left after each sub-round.\<close>

function zeros :: "decoder \<Rightarrow> nat \<Rightarrow> step" where
  "zeros d i =
     (if i < ctlWidth then
        (case literal d of Go d' \<Rightarrow> zeros d' (i + 1) | Ret d' \<Rightarrow> Ret d' | Crash \<Rightarrow> Crash)
      else Go d)"
  by pat_completeness auto
termination
  by (relation "measure (\<lambda>(d, i). ctlWidth - i)") auto

function rounds :: "decoder \<Rightarrow> byte \<Rightarrow> nat \<Rightarrow> step" where
  "rounds d ctl i =
     (if i < ctlWidth then
        (case (if ctl AND 0x80 = 0 then literal d else reference d) of
           Go d' \<Rightarrow> rounds d' (push_bit 1 ctl) (i + 1)
         | Ret d' \<Rightarrow> Ret d'
         | Crash \<Rightarrow> Crash)
      else Go d)"
  by pat_completeness auto
termination
  by (relation "measure (\<lambda>(d, ctl, i). ctlWidth - i)") auto

declare zeros.simps [simp del] rounds.simps [simp del]

text \<open>
  The deferred function of \<^verbatim>\<open>decode\<close>, run on every return: \<^verbatim>\<open>io.EOF\<close> becomes
  \<^verbatim>\<open>io.ErrUnexpectedEOF\<close>, and the output is flushed once \<open>d.o \<ge> flushBuffer\<close> or an
  error is stored. Then \<^verbatim>\<open>decode\<close> itself; \<open>None\<close> is a panic.
\<close>

definition deferred :: "decoder \<Rightarrow> decoder option" where
  "deferred d =
     (let d1 = (if d_err d = Some io_EOF then d\<lparr>d_err := Some io_ErrUnexpectedEOF\<rparr> else d)
      in if d_o d1 \<ge> int flushBuffer \<or> d_err d1 \<noteq> None then flush d1 else Some d1)"

definition after :: "step \<Rightarrow> decoder option" where
  "after s = (case s of Go d \<Rightarrow> deferred d | Ret d \<Rightarrow> deferred d | Crash \<Rightarrow> None)"

definition decode :: "decoder \<Rightarrow> decoder option" where
  "decode d =
     (case ReadByte d of (d1, ctl, err) \<Rightarrow>
        if err = Some io_EOF then (case flush d1 of None \<Rightarrow> None | Some d2 \<Rightarrow> deferred d2)
        else if d_err d1 \<noteq> None then deferred (d1\<lparr>d_err := err\<rparr>)
        else if ctl = 0 then after (zeros d1 0)
        else after (rounds d1 ctl 0))"

text \<open>
  \<^verbatim>\<open>Read(b)\<close> with \<open>lb = len(b)\<close>: the loop hands out pending bytes, else returns the
  stored error, else decodes one more block and tries again. It need not terminate:
  \<open>None\<close> is a call that never returns. A call that returns gives the new state, the
  bytes copied into \<open>b\<close> and the error.
\<close>

datatype read_result = ReadPanic | ReadOk decoder "byte list" "ioerror option"

partial_function (option) Read :: "decoder \<Rightarrow> nat \<Rightarrow> read_result option" where
  "Read d lb =
     (if toRead_len d > 0 then
        Some (ReadOk (d\<lparr>d_toRead := (fst (d_toRead d) + min lb (toRead_len d), snd (d_toRead d))\<rparr>)
                (take lb (toRead_bytes d)) None)
      else if d_err d \<noteq> None then Some (ReadOk d [] (d_err d))
      else (case decode d of None \<Rightarrow> Some ReadPanic | Some d' \<Rightarrow> Read d' lb))"

declare Read.simps [code]

definition Close :: "decoder \<Rightarrow> decoder" where
  "Close d = d\<lparr>d_err := Some errClosed\<rparr>"

text \<open>
  \<^verbatim>\<open>NewReader\<close> over a source that delivers the bytes \<open>src\<close>: a zero decoder, with the
  unknown-order error stored for an order that is neither LSB nor MSB.
\<close>

definition NewReader :: "byte list \<Rightarrow> Order \<Rightarrow> decoder" where
  "NewReader src ord =
     (if ord \<noteq> LSB \<and> ord \<noteq> MSB
      then \<lparr>d_r = [], d_calls = 0, d_order = 0, d_err = Some errUnknownOrder,
            d_output = (\<lambda>_. 0), d_o = 0, d_toRead = (0, 0)\<rparr>
      else \<lparr>d_r = src, d_calls = 0, d_order = ord, d_err = None,
            d_output = (\<lambda>_. 0), d_o = 0, d_toRead = (0, 0)\<rparr>)"

text \<open>A caller's script of Read and Close calls, and what its Read calls return in turn.\<close>

datatype op = OpRead nat | OpClose

fun run :: "decoder \<Rightarrow> op list \<Rightarrow> (byte list \<times> ioerror option) list option" where
  "run d [] = Some []"
| "run d (OpClose # ops) = run (Close d) ops"
| "run d (OpRead lb # ops) =
     (case Read d lb of
        Some (ReadOk d' bs e) \<Rightarrow> map_option ((#) (bs, e)) (run d' ops)
      | _ \<Rightarrow> None)"

text \<open>The bytes decoded so far all equal \<open>c\<close>: the array below the write index.\<close>

definition filled :: "decoder \<Rightarrow> byte \<Rightarrow> bool" where
  "filled d c \<longleftrightarrow> (\<forall>j. int j < d_o d \<longrightarrow> d_output d j = c)"

text \<open>
  A block of eight literals \<open>c\<close> under a zero flag byte, and a stream of 1024 of them
  (8192 bytes of output, the flush threshold) followed by a block that opens with a
  reference to the byte just written (relative offset 1, three bytes) and seven literals.
\<close>

definition block :: "byte \<Rightarrow> byte list" where
  "block c = 0 # replicate ctlWidth c"

definition long_stream :: "byte list" where
  "long_stream = concat (replicate 1024 (block 0x41)) @ [0x80, 0, 0, 1, 2, 3, 4, 5, 6, 7]"

section \<open>Properties of the flag and reference functions\<close>

lemma bit_byte: "bit (x :: byte) n \<Longrightarrow> n < 8"
  using bit_imp_le_length [of x n] by simp

lemma and_0x80: "(x :: byte) AND 0x80 = 0 \<longleftrightarrow> \<not> bit x 7"
proof -
  have "(0x80 :: byte) = 2 ^ 7" by simp
  then show ?thesis by (simp only: and_exp_eq_0_iff_not_bit)
qed

lemma DefaultFlagFunc_bit:
  "pos < 8 \<Longrightarrow> DefaultFlagFunc flags pos = (\<not> bit flags (7 - pos))"
  unfolding DefaultFlagFunc_def and_0x80
  by (simp add: bit_push_bit_iff)

lemma NewDecoder_flagFunc: "NewDecoder ord = Inr d \<Longrightarrow> flagFunc d = DefaultFlagFunc"
  by (auto simp: NewDecoder_def NewCustomDecoder_def split: if_split_asm)

lemma mask_msb_first: "pos < 8 \<Longrightarrow> drop_bit pos (0x80 :: byte) = 2 ^ (7 - pos)"
proof -
  assume "pos < 8"
  then have "pos = 0 \<or> pos = 1 \<or> pos = 2 \<or> pos = 3 \<or> pos = 4 \<or> pos = 5 \<or> pos = 6 \<or> pos = 7"
    by arith
  then show ?thesis by (elim disjE) (simp_all add: drop_bit_eq_div)
qed

lemma DefaultFlagFunc_mask:
  "pos < 8 \<Longrightarrow> DefaultFlagFunc flags pos = (flags AND drop_bit pos 0x80 = 0)"
  by (simp only: DefaultFlagFunc_bit mask_msb_first and_exp_eq_0_iff_not_bit)

text \<open>
  C7. For every control byte and every sub-round index below 8, the default flag function
  answers "literal" exactly when bit \<open>7 - pos\<close> of the control byte (bit 7 the most
  significant) is zero, that is the bit under the mask \<open>0x80 >> pos\<close>, the one at
  position \<open>pos\<close> counted from the most significant end: sub-round 0 looks at the most
  significant bit, sub-round 7 at the least significant one. The byte order plays no
  part: a default decoder of either order decides the same way.
\<close>

theorem DefaultFlagFunc_msb_first:
  assumes "pos < NFlags"
  shows "DefaultFlagFunc flags pos = (\<not> bit flags (7 - pos)) \<and>
         DefaultFlagFunc flags pos = (flags AND drop_bit pos 0x80 = 0) \<and>
         (\<forall>ord d. NewDecoder ord = Inr d \<longrightarrow> flagFunc d flags pos = (\<not> bit flags (7 - pos)))"
proof -
  from assms have p: "pos < 8" by (simp add: NFlags_def)
  show ?thesis
    using DefaultFlagFunc_bit [OF p] DefaultFlagFunc_mask [OF p] NewDecoder_flagFunc
    by simp
qed

theorem DefaultFlagFunc_msb_first_witness:
  "(1 :: nat) < NFlags \<and> \<not> DefaultFlagFunc 0x40 1 \<and> DefaultFlagFunc 0x40 0 \<and> bit (0x40 :: byte) 6"
proof -
  have h0: "(0 :: nat) < NFlags" and h1: "(1 :: nat) < NFlags" by (simp_all add: NFlags_def)
  show ?thesis
    using h1 DefaultFlagFunc_msb_first [OF h1, of "0x40"] DefaultFlagFunc_msb_first [OF h0, of "0x40"]
    by (simp add: bit_numeral_word_iff)
qed

lemma hi_lo_offset:
  "push_bit 8 (ucast ((hi::byte) AND OffsetMask) :: 16 word) OR ucast (lo::byte) =
   (push_bit 8 (ucast hi) OR ucast lo) AND (push_bit NOffsetBits 1 - 1)"
proof -
  have a: "OffsetMask = mask 4" by (simp add: OffsetMask_def NLengthBits_def mask_eq_exp_minus_1)
  have b: "(push_bit NOffsetBits 1 - 1 :: 16 word) = mask 12"
    by (simp add: NOffsetBits_def mask_eq_exp_minus_1)
  show ?thesis unfolding a b
    apply (rule bit_word_eqI)
    apply (auto simp: bit_simps)
    apply (frule bit_byte, simp)+
    done
qed

lemma hi_lo_length:
  "uint (drop_bit NLengthBits (hi::byte)) =
   uint (drop_bit NOffsetBits (push_bit 8 (ucast hi) OR ucast (lo::byte) :: 16 word))"
proof -
  have "drop_bit 12 (push_bit 8 (ucast hi) OR ucast lo :: 16 word) = ucast (drop_bit 4 hi)"
    apply (rule bit_word_eqI)
    apply (auto simp: bit_simps)
    apply (frule bit_byte, simp)+
    done
  then show ?thesis
    by (simp only: NLengthBits_def NOffsetBits_def unsigned_ucast_eq) (simp add: bintr_uint)
qed

lemma DefaultReferenceFunc_split:
  "DefaultReferenceFunc [b0, b1] ord =
     Some (uint (drop_bit NOffsetBits (ref_code b0 b1 ord)),
           uint (ref_code b0 b1 ord AND (push_bit NOffsetBits 1 - 1)))"
proof (cases "ord = LSB")
  case True
  then show ?thesis
    by (simp add: DefaultReferenceFunc_def ref_code_def Let_def hi_lo_offset
        hi_lo_length [of b1 b0] del: drop_bit_or)
next
  case False
  then show ?thesis
    by (simp add: DefaultReferenceFunc_def ref_code_def Let_def hi_lo_offset
        hi_lo_length [of b0 b1] del: drop_bit_or)
qed

lemma DefaultReferenceFunc_reader_split:
  "DefaultReferenceFunc_reader [b0, b1] ord =
     Some (uint (ref_code b0 b1 ord AND (push_bit NLengthBits 1 - 1)),
           uint (drop_bit NLengthBits (ref_code b0 b1 ord)))"
  by (simp add: DefaultReferenceFunc_reader_def ref_code_def Let_def del: drop_bit_or)

text \<open>
  C5, as the claim states it, fails for the default reference function of the buffer
  decoder: on the bytes 0x12, 0x34 under MSB the code is 0x1234, the claimed split is
  length 4 and offset 0x123, and the function returns length 1 and offset 0x234.
\<close>

theorem DefaultReferenceFunc_split_counterexample:
  "DefaultReferenceFunc [0x12, 0x34] MSB = Some (1, 0x234) \<and>
   DefaultReferenceFunc [0x12, 0x34] MSB \<noteq>
     Some (uint (ref_code 0x12 0x34 MSB AND (push_bit NLengthBits 1 - 1)),
           uint (drop_bit NLengthBits (ref_code 0x12 0x34 MSB)))"
  by (simp add: DefaultReferenceFunc_def ref_code_def Let_def LSB_def MSB_def OffsetMask_def
      NLengthBits_def)

text \<open>
  C5, amended. For every pair of reference bytes and every order, with the 16-bit code
  assembled as the order says: the default reference function of the buffer decoder
  returns the top \<open>NLengthBits\<close> bits as the length (\<open>code >> NOffsetBits\<close>) and the
  low \<open>NOffsetBits\<close> bits as the offset (\<open>code & (1 << NOffsetBits - 1)\<close>); the default
  reference function of the streaming revision returns
  \<open>length = code & (1 << NLengthBits - 1)\<close> and \<open>offset = code >> NLengthBits\<close>.
\<close>

theorem DefaultReferenceFunc_splits:
  "DefaultReferenceFunc [b0, b1] ord =
     Some (uint (drop_bit NOffsetBits (ref_code b0 b1 ord)),
           uint (ref_code b0 b1 ord AND (push_bit NOffsetBits 1 - 1))) \<and>
   DefaultReferenceFunc_reader [b0, b1] ord =
     Some (uint (ref_code b0 b1 ord AND (push_bit NLengthBits 1 - 1)),
           uint (drop_bit NLengthBits (ref_code b0 b1 ord)))"
  by (simp only: DefaultReferenceFunc_split DefaultReferenceFunc_reader_split)

theorem DefaultReferenceFunc_splits_witness:
  "DefaultReferenceFunc [0x12, 0x34] MSB = Some (1, 0x234) \<and>
   DefaultReferenceFunc [0x12, 0x34] LSB = Some (3, 0x412) \<and>
   DefaultReferenceFunc_reader [0x12, 0x34] MSB = Some (4, 0x123) \<and>
   DefaultReferenceFunc_reader [0x12, 0x34] LSB = Some (2, 0x341)"
  using DefaultReferenceFunc_splits [of "0x12" "0x34" MSB]
    DefaultReferenceFunc_splits [of "0x12" "0x34" LSB]
  by (simp add: ref_code_def LSB_def MSB_def NOffsetBits_def NLengthBits_def)

section \<open>Construction\<close>

text \<open>
  C3. NewCustomDecoder checks, in this order: the order (anything but LSB and MSB is the
  unknown-order error), the two functions (a nil one is the nil-parameter error), and
  the threshold (below ThresholdMin it is the threshold error); every other argument
  list gives a decoder holding the four arguments, and no error. ThresholdMin is
  NReferenceBytes + 1.
\<close>

theorem NewCustomDecoder_validation:
  "(ord \<noteq> LSB \<and> ord \<noteq> MSB \<longrightarrow> NewCustomDecoder ord ff rf thr = Inl ErrOrder) \<and>
   ((ord = LSB \<or> ord = MSB) \<and> (ff = None \<or> rf = None) \<longrightarrow>
      NewCustomDecoder ord ff rf thr = Inl ErrNilParameter) \<and>
   ((ord = LSB \<or> ord = MSB) \<and> ff \<noteq> None \<and> rf \<noteq> None \<and> thr < ThresholdMin \<longrightarrow>
      NewCustomDecoder ord ff rf thr = Inl ErrThreshold) \<and>
   ((ord = LSB \<or> ord = MSB) \<and> ff = Some f \<and> rf = Some g \<and> ThresholdMin \<le> thr \<longrightarrow>
      NewCustomDecoder ord ff rf thr =
        Inr \<lparr>order = ord, threshold = thr, flagFunc = f, referenceFunc = g\<rparr>) \<and>
   ThresholdMin = int NReferenceBytes + 1"
  by (auto simp: NewCustomDecoder_def ThresholdMin_def NFlags_def)

theorem NewCustomDecoder_validation_witness:
  "NewCustomDecoder 2 (Some DefaultFlagFunc) (Some DefaultReferenceFunc) 3 = Inl ErrOrder \<and>
   NewCustomDecoder LSB None (Some DefaultReferenceFunc) 3 = Inl ErrNilParameter \<and>
   NewCustomDecoder MSB (Some DefaultFlagFunc) None 3 = Inl ErrNilParameter \<and>
   NewCustomDecoder MSB (Some DefaultFlagFunc) (Some DefaultReferenceFunc) 2 = Inl ErrThreshold \<and>
   NewCustomDecoder MSB (Some DefaultFlagFunc) (Some DefaultReferenceFunc) 3 =
     Inr \<lparr>order = MSB, threshold = 3, flagFunc = DefaultFlagFunc,
          referenceFunc = DefaultReferenceFunc\<rparr> \<and>
   ThresholdMin = 3"
proof -
  have o2: "(2 :: Order) \<noteq> LSB \<and> (2 :: Order) \<noteq> MSB" by (simp add: LSB_def MSB_def)
  have t2: "(2 :: int) < ThresholdMin" and t3: "ThresholdMin \<le> (3 :: int)"
    by (simp_all add: ThresholdMin_def NReferenceBytes_def NOffsetBits_def NFlags_def)
  have tm: "ThresholdMin = 3"
    by (simp add: ThresholdMin_def NReferenceBytes_def NOffsetBits_def NFlags_def)
  show ?thesis
    using o2 t2 t3 tm
      NewCustomDecoder_validation [of 2 "Some DefaultFlagFunc" "Some DefaultReferenceFunc" 3]
      NewCustomDecoder_validation [of LSB None "Some DefaultReferenceFunc" 3]
      NewCustomDecoder_validation [of MSB "Some DefaultFlagFunc" None 3]
      NewCustomDecoder_validation [of MSB "Some DefaultFlagFunc" "Some DefaultReferenceFunc" 2]
      NewCustomDecoder_validation [of MSB "Some DefaultFlagFunc" "Some DefaultReferenceFunc" 3
        DefaultFlagFunc DefaultReferenceFunc]
    by simp
qed

section \<open>Reference sub-rounds of Decode\<close>

lemma go_int_id: "- (2 ^ 63) \<le> x \<Longrightarrow> x \<le> MaxInt \<Longrightarrow> go_int x = x"
  by (simp add: go_int_def MaxInt_def)

lemma go_int_range: "- (2 ^ 63) \<le> go_int x \<and> go_int x \<le> MaxInt"
  by (simp add: go_int_def MaxInt_def)

text \<open>
  The write count is the length of the output, in every state Decode reaches: a sub-round
  that goes on keeps \<open>w = len(out)\<close>, for every decoder.
\<close>

lemma mod_once: "0 \<le> a \<Longrightarrow> a < 2 * M \<Longrightarrow> (a :: int) mod M = (if a < M then a else a - M)"
proof (cases "a < M")
  case True
  assume "0 \<le> a"
  with True show ?thesis by simp
next
  case False
  assume "a < 2 * M"
  with False have b: "0 \<le> a - M" "a - M < M" by simp_all
  have "a mod M = (a - M) mod M" by simp
  also have "\<dots> = a - M" using b by (rule mod_pos_pos_trivial)
  finally show ?thesis using False by simp
qed

lemma go_int_sum:
  assumes p: "0 \<le> go_int y" and le: "go_int y \<le> go_int (go_int y + go_int x)"
  shows "go_int (go_int y + go_int x) = go_int y + go_int x"
proof -
  define p where "p = go_int y"
  define n where "n = go_int x"
  have pr: "p \<le> MaxInt" and nr: "- (2 ^ 63) \<le> n" "n \<le> MaxInt"
    using go_int_range [of y] go_int_range [of x] by (simp_all add: p_def n_def)
  have p0: "0 \<le> p" using p by (simp add: p_def)
  have a0: "0 \<le> p + n + 2 ^ 63" using p0 nr by simp
  have a1: "p + n + 2 ^ 63 < 2 * 2 ^ 64" using pr nr by (simp add: MaxInt_def)
  have g: "go_int (p + n) = (if p + n + 2 ^ 63 < 2 ^ 64 then p + n else p + n - 2 ^ 64)"
    unfolding go_int_def using mod_once [OF a0 a1] by simp
  show ?thesis
  proof (cases "p + n + 2 ^ 63 < (2 ^ 64 :: int)")
    case True
    with g show ?thesis by (simp add: p_def n_def)
  next
    case False
    with g have "go_int (p + n) = p + n - 2 ^ 64" by simp
    moreover have "p + n - 2 ^ 64 < 0" using pr nr by (simp add: MaxInt_def)
    ultimately have "go_int (p + n) < p" using p0 by simp
    with le show ?thesis by (simp add: p_def n_def)
  qed
qed

lemma subround_write_count:
  assumes w: "w = int (length out)"
    and s: "subround d inp flags i r w out = Continue r' w' out'"
  shows "w' = int (length out')"
proof (cases "flagFunc d flags i")
  case True
  with s w show ?thesis by (auto simp: subround_def split: if_split_asm)
next
  case False
  with s obtain n0 offset where
    rf: "referenceFunc d (take NReferenceBytes (drop r inp)) (order d) = Some (n0, offset)"
    by (auto simp: subround_def split: if_split_asm option.split_asm)
  define n where "n = go_int (n0 + threshold d)"
  define pos where "pos = go_int ((w - 1) - offset)"
  from s False rf have
    c: "0 \<le> pos" "go_int (pos + n) \<le> int (length out)" "pos \<le> go_int (pos + n)"
    and w': "w' = w + n"
    and out': "out' = out @ take (nat (go_int (pos + n)) - nat pos) (drop (nat pos) out)"
    by (simp_all add: subround_def Let_def n_def pos_def split: if_split_asm)
  have "go_int (pos + n) = pos + n"
    using go_int_sum [of "(w - 1) - offset" "n0 + threshold d"] c(1) c(3)
    by (simp add: n_def pos_def)
  with c have "length (take (nat (go_int (pos + n)) - nat pos) (drop (nat pos) out)) = nat n"
    and "0 \<le> n" by auto
  with w w' out' show ?thesis by simp
qed

lemma subrounds_write_count:
  assumes "w = int (length out)"
    and "subrounds d inp flags i r w out = Continue r' w' out'"
  shows "w' = int (length out')"
  using assms
proof (induction d inp flags i r w out rule: subrounds.induct)
  case (1 d inp flags i r w out)
  show ?case
  proof (cases "i < NFlags")
    case False
    with "1.prems" show ?thesis by (auto simp: subrounds.simps [of d inp flags i])
  next
    case True
    then obtain r1 w1 out1 where s: "subround d inp flags i r w out = Continue r1 w1 out1"
      and rest: "subrounds d inp flags (i + 1) r1 w1 out1 = Continue r' w' out'"
      using "1.prems"(2) by (simp add: subrounds.simps [of d inp flags i] split: flow.split_asm)
    from "1.IH" [OF True s subround_write_count [OF "1.prems"(1) s] rest] show ?thesis .
  qed
qed


lemma NewDecoder_default:
  "ord = LSB \<or> ord = MSB \<Longrightarrow> NewDecoder ord = Inr (defaultDecoder ord)"
  by (auto simp: NewDecoder_def NewCustomDecoder_def defaultDecoder_def DefaultThreshold_def)

text \<open>
  A reference sub-round that has its bytes, a non-negative length and an offset inside
  the output, with no overflow: either the copy source runs past the end of the output and
  Decode stops, or the bytes \<open>out[pos : pos + n]\<close> are appended.
\<close>

lemma reference_subround:
  assumes lit: "\<not> flagFunc d flags i"
    and avail: "r + NReferenceBytes \<le> length inp"
    and rf: "referenceFunc d (take NReferenceBytes (drop r inp)) (order d) = Some (n0, offset)"
    and n0: "0 \<le> n0" and off: "0 \<le> offset" and thr: "0 \<le> threshold d"
    and w: "w = int (length out)"
    and pos: "offset < w"
    and rng: "w + n0 + threshold d \<le> MaxInt"
  shows "subround d inp flags i r w out =
    (if w < (w - 1 - offset) + (n0 + threshold d)
     then Stop (Return (out @ drop (nat (w - 1 - offset)) out) (Some ErrChunkLength))
     else Continue (r + NReferenceBytes) (w + (n0 + threshold d))
            (out @ take (nat (n0 + threshold d)) (drop (nat (w - 1 - offset)) out)))"
proof -
  define n where "n = n0 + threshold d"
  define pos where "pos = w - 1 - offset"
  have n_nonneg: "0 \<le> n" using n0 thr by (simp add: n_def)
  have pos_nonneg: "0 \<le> pos" using pos by (simp add: pos_def)
  have pos_le: "pos \<le> int (length out)" using off w by (simp add: pos_def)
  have g1: "go_int (n0 + threshold d) = n"
    unfolding n_def using n0 thr rng w by (intro go_int_id) auto
  have g2: "go_int (w - 1 - offset) = pos"
    unfolding pos_def using off pos rng n0 thr by (intro go_int_id) auto
  have g3: "go_int (pos + n) = pos + n"
    unfolding pos_def n_def using off pos rng n0 thr by (intro go_int_id) auto
  have len: "nat (pos + n) - nat pos = nat n"
    using n_nonneg pos_nonneg by simp
  have le: "\<not> r + NReferenceBytes > length inp" using avail by simp
  have "subround d inp flags i r w out =
    (if pos + n > int (length out)
     then Stop (Return (out @ drop (nat pos) out) (Some ErrChunkLength))
     else Continue (r + NReferenceBytes) (w + n) (out @ take (nat n) (drop (nat pos) out)))"
    unfolding subround_def
    using lit le rf n0 off pos_nonneg pos_le n_nonneg
    by (simp add: Let_def g1 g2 g3 len)
  then show ?thesis by (simp add: n_def pos_def w)
qed

lemma reference_subround_negative_length:
  assumes "\<not> flagFunc d flags i" and "r + NReferenceBytes \<le> length inp"
    and "referenceFunc d (take NReferenceBytes (drop r inp)) (order d) = Some (n0, offset)"
    and "n0 < 0"
  shows "subround d inp flags i r w out = Stop (Return out (Some ErrChunkLength))"
  using assms by (simp add: subround_def)

lemma reference_subround_bad_offset:
  assumes lit: "\<not> flagFunc d flags i" and avail: "r + NReferenceBytes \<le> length inp"
    and rf: "referenceFunc d (take NReferenceBytes (drop r inp)) (order d) = Some (n0, offset)"
    and n0: "0 \<le> n0" and w: "0 \<le> w" and omax: "offset \<le> MaxInt"
    and bad: "offset < 0 \<or> w - 1 - offset < 0"
  shows "subround d inp flags i r w out = Stop (Return out (Some ErrOffset))"
proof (cases "offset < 0")
  case True
  with lit avail rf n0 show ?thesis by (simp add: subround_def Let_def)
next
  case False
  with bad have neg: "w - 1 - offset < 0" by simp
  have "go_int (w - 1 - offset) = w - 1 - offset"
    using neg w omax by (intro go_int_id) (auto simp: MaxInt_def)
  with neg lit avail rf n0 show ?thesis by (simp add: subround_def Let_def)
qed







section \<open>Truncated input\<close>

lemma subround_Stop_error:
  "subround d inp flags i r w out = Stop res \<Longrightarrow> res \<noteq> Return out' None"
  unfolding subround_def Let_def
  by (simp split: if_split_asm option.split_asm prod.split_asm) auto

lemma subrounds_Stop_error:
  "subrounds d inp flags i r w out = Stop res \<Longrightarrow> res \<noteq> Return out' None"
proof (induction d inp flags i r w out rule: subrounds.induct)
  case (1 d inp flags i r w out)
  show ?case
  proof (cases "i < NFlags")
    case False
    with "1.prems" show ?thesis by (simp add: subrounds.simps [of d inp flags i])
  next
    case True
    show ?thesis
    proof (cases "subround d inp flags i r w out")
      case (Stop res')
      with True "1.prems" have "res' = res" by (simp add: subrounds.simps [of d inp flags i])
      with Stop subround_Stop_error show ?thesis by blast
    next
      case (Continue r1 w1 out1)
      with True "1.prems" have "subrounds d inp flags (i + 1) r1 w1 out1 = Stop res"
        by (simp add: subrounds.simps [of d inp flags i])
      from "1.IH" [OF True Continue this] show ?thesis .
    qed
  qed
qed

lemma subround_prefix:
  "subround d inp flags i r w out = Continue r' w' out' \<Longrightarrow> prefix out out'"
  "subround d inp flags i r w out = Stop (Return out' e) \<Longrightarrow> prefix out out'"
  unfolding subround_def Let_def
  by (simp_all split: if_split_asm option.split_asm prod.split_asm) auto

lemma subrounds_prefix:
  "subrounds d inp flags i r w out = Continue r' w' out' \<Longrightarrow> prefix out out'"
  "subrounds d inp flags i r w out = Stop (Return out' e) \<Longrightarrow> prefix out out'"
proof (induction d inp flags i r w out rule: subrounds.induct)
  case (1 d inp flags i r w out)
  {
    case 1
    show ?case
    proof (cases "i < NFlags")
      case False
      with 1 show ?thesis by (simp add: subrounds.simps [of d inp flags i])
    next
      case True
      then obtain r1 w1 out1 where s: "subround d inp flags i r w out = Continue r1 w1 out1"
        and rest: "subrounds d inp flags (i + 1) r1 w1 out1 = Continue r' w' out'"
        using 1 by (simp add: subrounds.simps [of d inp flags i] split: flow.split_asm)
      from "1.IH"(1) [OF True s rest] subround_prefix(1) [OF s] show ?thesis
        using prefix_order.order_trans by blast
    qed
  next
    case 2
    show ?case
    proof (cases "i < NFlags")
      case False
      with 2 show ?thesis by (simp add: subrounds.simps [of d inp flags i])
    next
      case True
      show ?thesis
      proof (cases "subround d inp flags i r w out")
        case (Stop res)
        with True 2 have "res = Return out' e" by (simp add: subrounds.simps [of d inp flags i])
        with Stop subround_prefix(2) show ?thesis by blast
      next
        case (Continue r1 w1 out1)
        with True 2 have "subrounds d inp flags (i + 1) r1 w1 out1 = Stop (Return out' e)"
          by (simp add: subrounds.simps [of d inp flags i])
        from "1.IH"(2) [OF True Continue this] subround_prefix(1) [OF Continue] show ?thesis
          using prefix_order.order_trans by blast
      qed
    qed
  }
qed

lemma Decode_loop_prefix:
  "Decode_loop d inp r w out = Return out' e \<Longrightarrow> prefix out out'"
proof (induction d inp r w out rule: Decode_loop.induct)
  case (1 d inp r w out)
  show ?case
  proof (cases "r < length inp")
    case False
    with "1.prems" show ?thesis by (simp add: Decode_loop.simps [of d inp r])
  next
    case r: True
    show ?thesis
    proof (cases "inp ! r = 0")
      case z: True
      show ?thesis
      proof (cases "(r + 1) + NFlags > length inp")
        case True
        with r z "1.prems" show ?thesis by (auto simp: Decode_loop.simps [of d inp r])
      next
        case False
        with r z "1.prems" have "Decode_loop d inp ((r + 1) + NFlags) (w + int NFlags)
                   (out @ take NFlags (drop (r + 1) inp)) = Return out' e"
          by (simp add: Decode_loop.simps [of d inp r])
        from "1.IH"(1) [OF r z False this] show ?thesis
          using append_prefixD by blast
      qed
    next
      case nz: False
      show ?thesis
      proof (cases "subrounds d inp (inp ! r) 0 (r + 1) w out")
        case (Stop res)
        with r nz "1.prems" have "res = Return out' e"
          by (simp add: Decode_loop.simps [of d inp r])
        with Stop subrounds_prefix(2) show ?thesis by blast
      next
        case (Continue r1 w1 out1)
        with r nz "1.prems" have "Decode_loop d inp r1 w1 out1 = Return out' e"
          by (simp add: Decode_loop.simps [of d inp r])
        from "1.IH"(2) [OF r nz Continue this] subrounds_prefix(1) [OF Continue] show ?thesis
          using prefix_order.order_trans by blast
      qed
    qed
  qed
qed

lemma Decode_starts_ge:
  "x \<in> set (Decode_starts d inp r w out) \<Longrightarrow> r \<le> x"
proof (induction d inp r w out rule: Decode_starts.induct)
  case (1 d inp r w out)
  show ?case
  proof (cases "r < length inp")
    case False
    with "1.prems" show ?thesis by (simp add: Decode_starts.simps [of d inp r])
  next
    case r: True
    show ?thesis
    proof (cases "x = r")
      case True then show ?thesis by simp
    next
      case x: False
      show ?thesis
      proof (cases "inp ! r = 0")
        case z: True
        show ?thesis
        proof (cases "(r + 1) + NFlags > length inp")
          case True
          with r z x "1.prems" show ?thesis by (simp add: Decode_starts.simps [of d inp r])
        next
          case False
          with r z x "1.prems" have "x \<in> set (Decode_starts d inp ((r + 1) + NFlags)
              (w + int NFlags) (out @ take NFlags (drop (r + 1) inp)))"
            by (simp add: Decode_starts.simps [of d inp r])
          from "1.IH"(1) [OF r z False this] show ?thesis by simp
        qed
      next
        case nz: False
        show ?thesis
        proof (cases "subrounds d inp (inp ! r) 0 (r + 1) w out")
          case (Stop res)
          with r nz x "1.prems" show ?thesis by (simp add: Decode_starts.simps [of d inp r])
        next
          case (Continue r1 w1 out1)
          with r nz x "1.prems" have "x \<in> set (Decode_starts d inp r1 w1 out1)"
            by (simp add: Decode_starts.simps [of d inp r])
          from "1.IH"(2) [OF r nz Continue this] subrounds_mono [OF Continue] show ?thesis
            by simp
        qed
      qed
    qed
  qed
qed

lemma subround_trunc:
  assumes full: "subround d inp flags i r w out = Continue r' w' out'"
    and k: "k \<le> length inp"
  shows "r' \<le> k \<Longrightarrow> subround d (take k inp) flags i r w out = Continue r' w' out'"
    and "k < r' \<Longrightarrow> subround d (take k inp) flags i r w out = Stop (Return out (Some ErrUnexpectedEOF))"
proof -
  have tk: "\<And>m. r + m \<le> k \<Longrightarrow> take m (drop r (take k inp)) = take m (drop r inp)"
    by (simp add: drop_take min_def)
  {
    assume le: "r' \<le> k"
    show "subround d (take k inp) flags i r w out = Continue r' w' out'"
    proof (cases "flagFunc d flags i")
      case True
      with full have "r < length inp" "r' = r + 1" "w' = w + 1" "out' = out @ [inp ! r]"
        by (auto simp: subround_def split: if_split_asm)
      with True le k show ?thesis by (simp add: subround_def)
    next
      case False
      with full have a: "r + NReferenceBytes \<le> length inp" and r': "r' = r + NReferenceBytes"
        by (auto simp: subround_def Let_def split: if_split_asm option.split_asm prod.split_asm)
      from r' le have "r + NReferenceBytes \<le> k" by simp
      with False full k a tk [of NReferenceBytes] show ?thesis
        by (simp add: subround_def)
    qed
  }
  {
    assume gt: "k < r'"
    show "subround d (take k inp) flags i r w out = Stop (Return out (Some ErrUnexpectedEOF))"
    proof (cases "flagFunc d flags i")
      case True
      with full have "r' = r + 1"
        by (auto simp: subround_def split: if_split_asm)
      with True gt k show ?thesis by (simp add: subround_def)
    next
      case False
      with full have r': "r' = r + NReferenceBytes"
        by (auto simp: subround_def Let_def split: if_split_asm option.split_asm prod.split_asm)
      with False gt k show ?thesis by (simp add: subround_def)
    qed
  }
qed

lemma subrounds_trunc:
  assumes "subrounds d inp flags i r w out = Continue r' w' out'"
    and "k \<le> length inp" and "r \<le> k"
  shows "(r' \<le> k \<and> subrounds d (take k inp) flags i r w out = Continue r' w' out') \<or>
         (k < r' \<and> (\<exists>out''. subrounds d (take k inp) flags i r w out =
                           Stop (Return out'' (Some ErrUnexpectedEOF)) \<and>
                         prefix out out'' \<and> prefix out'' out'))"
  using assms
proof (induction d inp flags i r w out rule: subrounds.induct)
  case (1 d inp flags i r w out)
  note k = "1.prems"(2) and rk = "1.prems"(3)
  show ?case
  proof (cases "i < NFlags")
    case False
    with "1.prems"(1) have eq: "r' = r" "w' = w" "out' = out"
      by (simp_all add: subrounds.simps [of d inp flags i])
    with False rk show ?thesis by (simp add: subrounds.simps [of d "take k inp" flags i])
  next
    case True
    then obtain r1 w1 out1 where s: "subround d inp flags i r w out = Continue r1 w1 out1"
      and rest: "subrounds d inp flags (i + 1) r1 w1 out1 = Continue r' w' out'"
      using "1.prems"(1) by (simp add: subrounds.simps [of d inp flags i] split: flow.split_asm)
    show ?thesis
    proof (cases "r1 \<le> k")
      case le: True
      have t: "subround d (take k inp) flags i r w out = Continue r1 w1 out1"
        using subround_trunc(1) [OF s k le] .
      have unf: "subrounds d (take k inp) flags i r w out =
                 subrounds d (take k inp) flags (i + 1) r1 w1 out1"
        using True t by (simp add: subrounds.simps [of d "take k inp" flags i])
      from "1.IH" [OF True s rest k le] subround_prefix(1) [OF s] show ?thesis
        unfolding unf using prefix_order.order_trans by blast
    next
      case gt: False
      then have gt': "k < r1" by simp
      have t: "subround d (take k inp) flags i r w out = Stop (Return out (Some ErrUnexpectedEOF))"
        using subround_trunc(2) [OF s k gt'] .
      have unf: "subrounds d (take k inp) flags i r w out = Stop (Return out (Some ErrUnexpectedEOF))"
        using True t by (simp add: subrounds.simps [of d "take k inp" flags i])
      have "k < r'" using gt' subrounds_mono [OF rest] by simp
      moreover have "prefix out out'"
        using subround_prefix(1) [OF s] subrounds_prefix(1) [OF rest]
          prefix_order.order_trans by blast
      ultimately show ?thesis using unf by simp
    qed
  qed
qed

lemma Decode_loop_truncated:
  assumes "Decode_loop d inp r w out = Return res None"
    and "k < length inp" and "r \<le> k"
  shows "\<exists>res'. Decode_loop d (take k inp) r w out =
                  Return res' (if k \<in> set (Decode_starts d inp r w out) then None
                               else Some ErrUnexpectedEOF) \<and>
                prefix res' res"
  using assms
proof (induction d inp r w out rule: Decode_loop.induct)
  case (1 d inp r w out)
  note full = "1.prems"(1) and k = "1.prems"(2) and rk = "1.prems"(3)
  have r: "r < length inp" using k rk by simp
  have lk: "length (take k inp) = k" using k by simp
  show ?case
  proof (cases "r = k")
    case True
    have "Decode_loop d (take k inp) r w out = Return out None"
      using lk by (simp add: True Decode_loop.simps [of d "take k inp" k])
    moreover have "k \<in> set (Decode_starts d inp r w out)"
      using k by (simp add: True Decode_starts.simps [of d inp k])
    moreover have "prefix out res" using Decode_loop_prefix [OF full] .
    ultimately show ?thesis by simp
  next
    case False
    with rk have rlt: "r < k" by simp
    have nth: "take k inp ! r = inp ! r" using rlt by simp
    show ?thesis
    proof (cases "inp ! r = 0")
      case z: True
      have nine: "\<not> (r + 1) + NFlags > length inp"
        using full r z by (auto simp: Decode_loop.simps [of d inp r] split: if_split_asm)
      have next_full: "Decode_loop d inp ((r + 1) + NFlags) (w + int NFlags)
                   (out @ take NFlags (drop (r + 1) inp)) = Return res None"
        using full r z nine by (simp add: Decode_loop.simps [of d inp r])
      have starts: "Decode_starts d inp r w out = r # Decode_starts d inp ((r + 1) + NFlags)
              (w + int NFlags) (out @ take NFlags (drop (r + 1) inp))"
        using r z nine by (simp add: Decode_starts.simps [of d inp r])
      show ?thesis
      proof (cases "(r + 1) + NFlags \<le> k")
        case True
        have tk: "take NFlags (drop (r + 1) (take k inp)) = take NFlags (drop (r + 1) inp)"
          using True by (simp add: drop_take min_def)
        have unf: "Decode_loop d (take k inp) r w out =
                   Decode_loop d (take k inp) ((r + 1) + NFlags) (w + int NFlags)
                     (out @ take NFlags (drop (r + 1) inp))"
          using rlt lk nth z True tk by (simp add: Decode_loop.simps [of d "take k inp" r])
        from "1.IH"(1) [OF r z nine next_full k True] False show ?thesis
          unfolding unf starts by simp
      next
        case short: False
        have unf: "Decode_loop d (take k inp) r w out =
                   Return (out @ drop (r + 1) (take k inp)) (Some ErrUnexpectedEOF)"
          using rlt lk nth z short by (simp add: Decode_loop.simps [of d "take k inp" r])
        have notin: "k \<notin> set (Decode_starts d inp r w out)"
        proof
          assume "k \<in> set (Decode_starts d inp r w out)"
          with False have "k \<in> set (Decode_starts d inp ((r + 1) + NFlags) (w + int NFlags)
              (out @ take NFlags (drop (r + 1) inp)))"
            unfolding starts by simp
          from Decode_starts_ge [OF this] short show False by simp
        qed
        have e: "drop (r + 1) (take k inp) = take (k - (r + 1)) (take NFlags (drop (r + 1) inp))"
          using short by (simp add: drop_take min_def)
        have "prefix (drop (r + 1) (take k inp)) (take NFlags (drop (r + 1) inp))"
          unfolding e by (rule take_is_prefix)
        then have "prefix (out @ drop (r + 1) (take k inp)) (out @ take NFlags (drop (r + 1) inp))"
          by simp
        moreover have "prefix (out @ take NFlags (drop (r + 1) inp)) res"
          using Decode_loop_prefix [OF next_full] .
        ultimately have "prefix (out @ drop (r + 1) (take k inp)) res"
          using prefix_order.order_trans by blast
        with unf notin show ?thesis by simp
      qed
    next
      case nz: False
      obtain r1 w1 out1 where s: "subrounds d inp (inp ! r) 0 (r + 1) w out = Continue r1 w1 out1"
        and next_full: "Decode_loop d inp r1 w1 out1 = Return res None"
      proof (cases "subrounds d inp (inp ! r) 0 (r + 1) w out")
        case (Stop x)
        with full r nz have "x = Return res None" by (simp add: Decode_loop.simps [of d inp r])
        with Stop subrounds_Stop_error show ?thesis by blast
      next
        case (Continue a b c)
        with full r nz that show ?thesis by (simp add: Decode_loop.simps [of d inp r])
      qed
      have starts: "Decode_starts d inp r w out = r # Decode_starts d inp r1 w1 out1"
        using r nz s by (simp add: Decode_starts.simps [of d inp r])
      have k': "k \<le> length inp" using k by simp
      have r1k: "r + 1 \<le> k" using rlt by simp
      from subrounds_trunc [OF s k' r1k] show ?thesis
      proof
        assume a: "r1 \<le> k \<and> subrounds d (take k inp) (inp ! r) 0 (r + 1) w out = Continue r1 w1 out1"
        then have unf: "Decode_loop d (take k inp) r w out = Decode_loop d (take k inp) r1 w1 out1"
          using rlt lk nth nz by (simp add: Decode_loop.simps [of d "take k inp" r])
        from a have le: "r1 \<le> k" by simp
        from "1.IH"(2) [OF r nz s next_full k le] False show ?thesis
          unfolding unf starts by simp
      next
        assume b: "k < r1 \<and> (\<exists>out''. subrounds d (take k inp) (inp ! r) 0 (r + 1) w out =
                           Stop (Return out'' (Some ErrUnexpectedEOF)) \<and>
                         prefix out out'' \<and> prefix out'' out1)"
        then obtain out'' where
          t: "subrounds d (take k inp) (inp ! r) 0 (r + 1) w out =
                Stop (Return out'' (Some ErrUnexpectedEOF))"
          and p: "prefix out'' out1" and gt: "k < r1" by blast
        have unf: "Decode_loop d (take k inp) r w out = Return out'' (Some ErrUnexpectedEOF)"
          using rlt lk nth nz t by (simp add: Decode_loop.simps [of d "take k inp" r])
        have notin: "k \<notin> set (Decode_starts d inp r w out)"
        proof
          assume "k \<in> set (Decode_starts d inp r w out)"
          with False have "k \<in> set (Decode_starts d inp r1 w1 out1)"
            unfolding starts by simp
          from Decode_starts_ge [OF this] gt show False by simp
        qed
        have "prefix out'' res"
          using p Decode_loop_prefix [OF next_full] prefix_order.order_trans by blast
        with unf notin show ?thesis by simp
      qed
    qed
  qed
qed

text \<open>
  The output of the cut input, exactly: the run on the cut input follows the run on the
  whole input through the trace, up to the last state within the retained bytes.
\<close>

lemma trace_upto_append_gt:
  "\<forall>m \<in> set B. k < fst m \<Longrightarrow> trace_upto (A @ B) k = trace_upto A k"
  by (simp add: trace_upto_def filter_empty_conv not_le)

lemma trace_upto_append_le:
  "p \<le> k \<Longrightarrow> trace_upto (A @ (p, x) # B) k = trace_upto ((p, x) # B) k"
  by (simp add: trace_upto_def)

lemma trace_upto_single: "p \<le> k \<Longrightarrow> trace_upto [(p, x)] k = x"
  by (simp add: trace_upto_def)

lemma subrounds_trace_ge:
  "m \<in> set (subrounds_trace d inp flags i r w out) \<Longrightarrow> r \<le> fst m"
proof (induction d inp flags i r w out rule: subrounds_trace.induct)
  case (1 d inp flags i r w out)
  show ?case
  proof (cases "m = (r, out)")
    case True then show ?thesis by simp
  next
    case ne: False
    show ?thesis
    proof (cases "i < NFlags")
      case False
      with ne "1.prems" show ?thesis by (simp add: subrounds_trace.simps [of d inp flags i])
    next
      case True
      show ?thesis
      proof (cases "subround d inp flags i r w out")
        case (Stop res)
        with True ne "1.prems" show ?thesis by (simp add: subrounds_trace.simps [of d inp flags i])
      next
        case (Continue r1 w1 out1)
        with True ne "1.prems" have "m \<in> set (subrounds_trace d inp flags (i + 1) r1 w1 out1)"
          by (simp add: subrounds_trace.simps [of d inp flags i])
        from "1.IH" [OF True Continue this] subround_mono [OF Continue] show ?thesis by simp
      qed
    qed
  qed
qed

lemma Decode_trace_gt:
  "m \<in> set (Decode_trace d inp r w out) \<Longrightarrow> m = (r, out) \<or> r < fst m"
proof (induction d inp r w out rule: Decode_trace.induct)
  case (1 d inp r w out)
  show ?case
  proof (cases "m = (r, out)")
    case True then show ?thesis by simp
  next
    case ne: False
    show ?thesis
    proof (cases "r < length inp")
      case False
      with ne "1.prems" show ?thesis by (simp add: Decode_trace.simps [of d inp r])
    next
      case r: True
      show ?thesis
      proof (cases "inp ! r = 0")
        case z: True
        show ?thesis
        proof (cases "(r + 1) + NFlags > length inp")
          case True
          with r z ne "1.prems" show ?thesis by (simp add: Decode_trace.simps [of d inp r])
        next
          case False
          with r z ne "1.prems" have
            "m \<in> set (map (\<lambda>j. ((r + 1) + j, out @ take j (drop (r + 1) inp))) [0..<NFlags]) \<or>
             m \<in> set (Decode_trace d inp ((r + 1) + NFlags) (w + int NFlags)
                        (out @ take NFlags (drop (r + 1) inp)))"
            by (simp add: Decode_trace.simps [of d inp r])
          then show ?thesis
          proof
            assume "m \<in> set (map (\<lambda>j. ((r + 1) + j, out @ take j (drop (r + 1) inp))) [0..<NFlags])"
            then show ?thesis by auto
          next
            assume "m \<in> set (Decode_trace d inp ((r + 1) + NFlags) (w + int NFlags)
                        (out @ take NFlags (drop (r + 1) inp)))"
            from "1.IH"(1) [OF r z False this] show ?thesis by auto
          qed
        qed
      next
        case nz: False
        show ?thesis
        proof (cases "subrounds d inp (inp ! r) 0 (r + 1) w out")
          case (Stop res)
          with r nz ne "1.prems" have "m \<in> set (subrounds_trace d inp (inp ! r) 0 (r + 1) w out)"
            by (simp add: Decode_trace.simps [of d inp r])
          from subrounds_trace_ge [OF this] show ?thesis by simp
        next
          case (Continue r1 w1 out1)
          with r nz ne "1.prems" have
            "m \<in> set (subrounds_trace d inp (inp ! r) 0 (r + 1) w out) \<or>
             m \<in> set (Decode_trace d inp r1 w1 out1)"
            by (simp add: Decode_trace.simps [of d inp r])
          then show ?thesis
          proof
            assume "m \<in> set (subrounds_trace d inp (inp ! r) 0 (r + 1) w out)"
            from subrounds_trace_ge [OF this] show ?thesis by simp
          next
            assume "m \<in> set (Decode_trace d inp r1 w1 out1)"
            from "1.IH"(2) [OF r nz Continue this] subrounds_mono [OF Continue] show ?thesis
              by auto
          qed
        qed
      qed
    qed
  qed
qed

lemma Decode_trace_ge:
  "m \<in> set (Decode_trace d inp r w out) \<Longrightarrow> r \<le> fst m"
  using Decode_trace_gt [of m d inp r w out] by auto

lemma subrounds_trace_head:
  "\<exists>ms. subrounds_trace d inp flags i r w out = (r, out) # ms"
  by (simp add: subrounds_trace.simps [of d inp flags i])

lemma Decode_trace_head:
  "\<exists>ms. Decode_trace d inp r w out = (r, out) # ms"
  by (simp add: Decode_trace.simps [of d inp r])

lemma trace_upto_raw:
  assumes "a \<le> k" and "k - a < N"
  shows "trace_upto (map (\<lambda>j. (a + j, g j)) [0..<N]) k = g (k - a)"
proof -
  have "filter (\<lambda>j. a + j \<le> k) [0..<N] = [0..<Suc (k - a)]"
    using assms
  proof (induction N)
    case 0 then show ?case by simp
  next
    case (Suc N)
    show ?case
    proof (cases "k - a < N")
      case True
      with Suc show ?thesis by simp
    next
      case False
      with Suc.prems have e: "k - a = N" by simp
      have "filter (\<lambda>j. a + j \<le> k) [0..<N] = [0..<N]"
        using e Suc.prems by (auto simp: filter_id_conv)
      with e Suc.prems show ?thesis by simp
    qed
  qed
  then have "filter (\<lambda>m. fst m \<le> k) (map (\<lambda>j. (a + j, g j)) [0..<N]) =
             map (\<lambda>j. (a + j, g j)) [0..<Suc (k - a)]"
    by (simp add: filter_map comp_def)
  then show ?thesis by (simp add: trace_upto_def)
qed

lemma subrounds_upto:
  assumes "subrounds d inp flags i r w out = Continue r' w' out'"
    and "k \<le> length inp" and "r \<le> k" and "k < r'"
  shows "subrounds d (take k inp) flags i r w out =
           Stop (Return (trace_upto (subrounds_trace d inp flags i r w out) k) (Some ErrUnexpectedEOF))"
  using assms
proof (induction d inp flags i r w out rule: subrounds.induct)
  case (1 d inp flags i r w out)
  note k = "1.prems"(2) and rk = "1.prems"(3) and kr = "1.prems"(4)
  have i: "i < NFlags"
  proof (rule ccontr)
    assume "\<not> i < NFlags"
    with "1.prems"(1) have "r' = r" by (simp add: subrounds.simps [of d inp flags i])
    with rk kr show False by simp
  qed
  obtain r1 w1 out1 where s: "subround d inp flags i r w out = Continue r1 w1 out1"
    and rest: "subrounds d inp flags (i + 1) r1 w1 out1 = Continue r' w' out'"
    using i "1.prems"(1) by (simp add: subrounds.simps [of d inp flags i] split: flow.split_asm)
  have marks: "subrounds_trace d inp flags i r w out =
               [(r, out)] @ subrounds_trace d inp flags (i + 1) r1 w1 out1"
    using i s by (simp add: subrounds_trace.simps [of d inp flags i])
  show ?case
  proof (cases "r1 \<le> k")
    case le: True
    have t: "subround d (take k inp) flags i r w out = Continue r1 w1 out1"
      using subround_trunc(1) [OF s k le] .
    have unf: "subrounds d (take k inp) flags i r w out =
               subrounds d (take k inp) flags (i + 1) r1 w1 out1"
      using i t by (simp add: subrounds.simps [of d "take k inp" flags i])
    obtain ms where h: "subrounds_trace d inp flags (i + 1) r1 w1 out1 = (r1, out1) # ms"
      using subrounds_trace_head by blast
    have "trace_upto (subrounds_trace d inp flags i r w out) k =
          trace_upto (subrounds_trace d inp flags (i + 1) r1 w1 out1) k"
      unfolding marks h using trace_upto_append_le [OF le] .
    with "1.IH" [OF i s rest k le kr] show ?thesis unfolding unf by simp
  next
    case gt: False
    then have gt': "k < r1" by simp
    have t: "subround d (take k inp) flags i r w out = Stop (Return out (Some ErrUnexpectedEOF))"
      using subround_trunc(2) [OF s k gt'] .
    have unf: "subrounds d (take k inp) flags i r w out = Stop (Return out (Some ErrUnexpectedEOF))"
      using i t by (simp add: subrounds.simps [of d "take k inp" flags i])
    have "\<forall>m \<in> set (subrounds_trace d inp flags (i + 1) r1 w1 out1). k < fst m"
      using subrounds_trace_ge gt' by fastforce
    from trace_upto_append_gt [OF this, of "[(r, out)]"] have
      "trace_upto (subrounds_trace d inp flags i r w out) k = out"
      unfolding marks using rk by (simp add: trace_upto_single)
    with unf show ?thesis by simp
  qed
qed

lemma Decode_loop_upto:
  assumes "Decode_loop d inp r w out = Return res None"
    and "k \<le> length inp" and "r \<le> k"
  shows "\<exists>e. Decode_loop d (take k inp) r w out =
               Return (trace_upto (Decode_trace d inp r w out) k) e"
  using assms
proof (induction d inp r w out rule: Decode_loop.induct)
  case (1 d inp r w out)
  note full = "1.prems"(1) and k = "1.prems"(2) and rk = "1.prems"(3)
  have lk: "length (take k inp) = k" using k by simp
  show ?case
  proof (cases "r = k")
    case True
    have "Decode_loop d (take k inp) r w out = Return out None"
      using lk by (simp add: True Decode_loop.simps [of d "take k inp" k])
    moreover have "trace_upto (Decode_trace d inp r w out) k = out"
    proof -
      obtain ms where h: "Decode_trace d inp r w out = (r, out) # ms"
        using Decode_trace_head by blast
      have "\<forall>m \<in> set ms. m = (r, out) \<or> k < fst m"
      proof
        fix m assume "m \<in> set ms"
        then have "m \<in> set (Decode_trace d inp r w out)" unfolding h by simp
        from Decode_trace_gt [OF this] True show "m = (r, out) \<or> k < fst m" by simp
      qed
      then have "snd (last ((r, out) # filter (\<lambda>m. fst m \<le> k) ms)) = out"
      proof (induction ms)
        case Nil then show ?case by simp
      next
        case (Cons a ms) then show ?case by auto
      qed
      then show ?thesis unfolding h trace_upto_def using True by simp
    qed
    ultimately show ?thesis by simp
  next
    case False
    with rk have rlt: "r < k" by simp
    have r: "r < length inp" using k rlt by simp
    have nth: "take k inp ! r = inp ! r" using rlt by simp
    show ?thesis
    proof (cases "inp ! r = 0")
      case z: True
      have nine: "\<not> (r + 1) + NFlags > length inp"
        using full r z by (auto simp: Decode_loop.simps [of d inp r] split: if_split_asm)
      have next_full: "Decode_loop d inp ((r + 1) + NFlags) (w + int NFlags)
                   (out @ take NFlags (drop (r + 1) inp)) = Return res None"
        using full r z nine by (simp add: Decode_loop.simps [of d inp r])
      have marks: "Decode_trace d inp r w out =
                   ((r, out) #
                    map (\<lambda>j. ((r + 1) + j, out @ take j (drop (r + 1) inp))) [0..<NFlags]) @
                   Decode_trace d inp ((r + 1) + NFlags) (w + int NFlags)
                     (out @ take NFlags (drop (r + 1) inp))"
        using r z nine by (simp add: Decode_trace.simps [of d inp r])
      show ?thesis
      proof (cases "(r + 1) + NFlags \<le> k")
        case True
        have tk: "take NFlags (drop (r + 1) (take k inp)) = take NFlags (drop (r + 1) inp)"
          using True by (simp add: drop_take min_def)
        have unf: "Decode_loop d (take k inp) r w out =
                   Decode_loop d (take k inp) ((r + 1) + NFlags) (w + int NFlags)
                     (out @ take NFlags (drop (r + 1) inp))"
          using rlt lk nth z True tk by (simp add: Decode_loop.simps [of d "take k inp" r])
        obtain ms where h: "Decode_trace d inp ((r + 1) + NFlags) (w + int NFlags)
                     (out @ take NFlags (drop (r + 1) inp)) =
                     ((r + 1) + NFlags, out @ take NFlags (drop (r + 1) inp)) # ms"
          using Decode_trace_head by blast
        have "trace_upto (Decode_trace d inp r w out) k =
              trace_upto (Decode_trace d inp ((r + 1) + NFlags) (w + int NFlags)
                     (out @ take NFlags (drop (r + 1) inp))) k"
          unfolding marks h using trace_upto_append_le [OF True] .
        with "1.IH"(1) [OF r z nine next_full k True] show ?thesis
          unfolding unf by simp
      next
        case short: False
        have unf: "Decode_loop d (take k inp) r w out =
                   Return (out @ drop (r + 1) (take k inp)) (Some ErrUnexpectedEOF)"
          using rlt lk nth z short by (simp add: Decode_loop.simps [of d "take k inp" r])
        have e: "drop (r + 1) (take k inp) = take (k - (r + 1)) (drop (r + 1) inp)"
          by (simp add: drop_take)
        have "\<forall>m \<in> set (Decode_trace d inp ((r + 1) + NFlags) (w + int NFlags)
                     (out @ take NFlags (drop (r + 1) inp))). k < fst m"
          using Decode_trace_ge short by fastforce
        from trace_upto_append_gt [OF this, of "(r, out) #
                    map (\<lambda>j. ((r + 1) + j, out @ take j (drop (r + 1) inp))) [0..<NFlags]"]
        have c1: "trace_upto (Decode_trace d inp r w out) k =
              trace_upto ((r, out) #
                   map (\<lambda>j. ((r + 1) + j, out @ take j (drop (r + 1) inp))) [0..<NFlags]) k"
          unfolding marks .
        have a: "r + 1 \<le> k" using rlt by simp
        have b: "k - (r + 1) < NFlags" using short by (simp add: NFlags_def)
        have hd: "map (\<lambda>j. ((r + 1) + j, out @ take j (drop (r + 1) inp))) [0..<NFlags] =
                  (r + 1, out) # map (\<lambda>j. ((r + 1) + j, out @ take j (drop (r + 1) inp))) [1..<NFlags]"
          by (simp add: NFlags_def upt_conv_Cons)
        have c2: "trace_upto ((r, out) #
                   map (\<lambda>j. ((r + 1) + j, out @ take j (drop (r + 1) inp))) [0..<NFlags]) k =
              trace_upto (map (\<lambda>j. ((r + 1) + j, out @ take j (drop (r + 1) inp))) [0..<NFlags]) k"
          unfolding hd using trace_upto_append_le [OF a, of "[(r, out)]"] by simp
        have "trace_upto (Decode_trace d inp r w out) k = out @ take (k - (r + 1)) (drop (r + 1) inp)"
          unfolding c1 c2 using trace_upto_raw [OF a b] .
        with unf e show ?thesis by simp
      qed
    next
      case nz: False
      obtain r1 w1 out1 where s: "subrounds d inp (inp ! r) 0 (r + 1) w out = Continue r1 w1 out1"
        and next_full: "Decode_loop d inp r1 w1 out1 = Return res None"
      proof (cases "subrounds d inp (inp ! r) 0 (r + 1) w out")
        case (Stop x)
        with full r nz have "x = Return res None" by (simp add: Decode_loop.simps [of d inp r])
        with Stop subrounds_Stop_error show ?thesis by blast
      next
        case (Continue a b c)
        with full r nz that show ?thesis by (simp add: Decode_loop.simps [of d inp r])
      qed
      have marks: "Decode_trace d inp r w out =
                   ((r, out) # subrounds_trace d inp (inp ! r) 0 (r + 1) w out) @
                   Decode_trace d inp r1 w1 out1"
        using r nz s by (simp add: Decode_trace.simps [of d inp r])
      note k' = k
      have r1k: "r + 1 \<le> k" using rlt by simp
      show ?thesis
      proof (cases "r1 \<le> k")
        case le: True
        from subrounds_trunc [OF s k' r1k] le
        have t: "subrounds d (take k inp) (inp ! r) 0 (r + 1) w out = Continue r1 w1 out1"
          by simp
        have unf: "Decode_loop d (take k inp) r w out = Decode_loop d (take k inp) r1 w1 out1"
          using rlt lk nth nz t by (simp add: Decode_loop.simps [of d "take k inp" r])
        obtain ms where h: "Decode_trace d inp r1 w1 out1 = (r1, out1) # ms"
          using Decode_trace_head by blast
        have "trace_upto (Decode_trace d inp r w out) k = trace_upto (Decode_trace d inp r1 w1 out1) k"
          unfolding marks h using trace_upto_append_le [OF le] .
        with "1.IH"(2) [OF r nz s next_full k le] show ?thesis
          unfolding unf by simp
      next
        case False
        then have gt: "k < r1" by simp
        have t: "subrounds d (take k inp) (inp ! r) 0 (r + 1) w out =
                 Stop (Return (trace_upto (subrounds_trace d inp (inp ! r) 0 (r + 1) w out) k)
                   (Some ErrUnexpectedEOF))"
          using subrounds_upto [OF s k' r1k gt] .
        have unf: "Decode_loop d (take k inp) r w out =
                   Return (trace_upto (subrounds_trace d inp (inp ! r) 0 (r + 1) w out) k)
                     (Some ErrUnexpectedEOF)"
          using rlt lk nth nz t by (simp add: Decode_loop.simps [of d "take k inp" r])
        have "\<forall>m \<in> set (Decode_trace d inp r1 w1 out1). k < fst m"
          using Decode_trace_ge gt by fastforce
        from trace_upto_append_gt [OF this, of "(r, out) # subrounds_trace d inp (inp ! r) 0 (r + 1) w out"]
        have c1: "trace_upto (Decode_trace d inp r w out) k =
                  trace_upto ((r, out) # subrounds_trace d inp (inp ! r) 0 (r + 1) w out) k"
          unfolding marks .
        obtain ms where h: "subrounds_trace d inp (inp ! r) 0 (r + 1) w out = (r + 1, out) # ms"
          using subrounds_trace_head by blast
        have c2: "trace_upto ((r, out) # subrounds_trace d inp (inp ! r) 0 (r + 1) w out) k =
                  trace_upto (subrounds_trace d inp (inp ! r) 0 (r + 1) w out) k"
          unfolding h using trace_upto_append_le [OF r1k, of "[(r, out)]"] by simp
        from unf c1 c2 show ?thesis by simp
      qed
    qed
  qed
qed

text \<open>Nothing cut: the output decoded from all the bytes is the output of Decode.\<close>

lemma Decode_upto_full:
  assumes "Decode d inp = Return out None"
  shows "Decode_upto d inp (length inp) = out"
  using Decode_loop_upto [of d inp 0 0 "[]" out "length inp"] assms
  by (auto simp: Decode_def Decode_upto_def)

text \<open>
  C2, as the claim states it, fails: an input cut at a block boundary is a complete input
  of its own. The 19 bytes below decode without error; cut after the first block (at 10
  bytes, strictly before the end), they still decode without error.
\<close>

theorem Decode_truncated_counterexample:
  "Decode (defaultDecoder MSB)
     [0x10, 0x41, 0x42, 0x43, 0, 2, 1, 2, 3, 4, 0, 1, 2, 3, 4, 5, 6, 7, 8] =
     Return [0x41, 0x42, 0x43, 0x41, 0x42, 0x43, 1, 2, 3, 4, 1, 2, 3, 4, 5, 6, 7, 8] None \<and>
   Decode (defaultDecoder MSB)
     (take 10 [0x10, 0x41, 0x42, 0x43, 0, 2, 1, 2, 3, 4, 0, 1, 2, 3, 4, 5, 6, 7, 8]) =
     Return [0x41, 0x42, 0x43, 0x41, 0x42, 0x43, 1, 2, 3, 4] None"
  by code_simp

text \<open>
  C2, amended. For every input that Decode decodes without error, cutting it at any byte
  boundary strictly before the end makes Decode return exactly the output decoded from
  the retained bytes: what the decoding of the whole input had produced when its read
  index last stood within them, so every literal and every reference that lies wholly
  within the retained bytes, and every retained byte of a raw block, and nothing else.
  This output is a prefix of the full output. It comes with the unexpected-end-of-input
  error -- unless the cut falls on a block boundary (a position where Decode reads a flag
  byte, the start included), in which case the error is nil. Decode never panics on the
  cut input.
\<close>

theorem Decode_truncated:
  assumes "Decode d inp = Return out None" and "k < length inp"
  shows "Decode d (take k inp) =
           Return (Decode_upto d inp k)
             (if k \<in> set (Decode_boundaries d inp) then None else Some ErrUnexpectedEOF) \<and>
         prefix (Decode_upto d inp k) out"
proof -
  from Decode_loop_truncated [of d inp 0 0 "[]" out k] assms obtain out' where
    a: "Decode d (take k inp) =
          Return out' (if k \<in> set (Decode_boundaries d inp) then None else Some ErrUnexpectedEOF)"
    and p: "prefix out' out"
    unfolding Decode_def Decode_boundaries_def by auto
  from Decode_loop_upto [of d inp 0 0 "[]" out k] assms obtain e where
    b: "Decode d (take k inp) = Return (Decode_upto d inp k) e"
    unfolding Decode_def Decode_upto_def by auto
  from a b have "out' = Decode_upto d inp k" by simp
  with a p show ?thesis by simp
qed

theorem Decode_truncated_witness:
  "Decode (defaultDecoder MSB)
     [0x10, 0x41, 0x42, 0x43, 0, 2, 1, 2, 3, 4, 0, 1, 2, 3, 4, 5, 6, 7, 8] =
     Return [0x41, 0x42, 0x43, 0x41, 0x42, 0x43, 1, 2, 3, 4, 1, 2, 3, 4, 5, 6, 7, 8] None \<and>
   Decode_boundaries (defaultDecoder MSB)
     [0x10, 0x41, 0x42, 0x43, 0, 2, 1, 2, 3, 4, 0, 1, 2, 3, 4, 5, 6, 7, 8] = [0, 10] \<and>
   Decode (defaultDecoder MSB)
     (take 5 [0x10, 0x41, 0x42, 0x43, 0, 2, 1, 2, 3, 4, 0, 1, 2, 3, 4, 5, 6, 7, 8]) =
     Return [0x41, 0x42, 0x43] (Some ErrUnexpectedEOF) \<and>
   Decode (defaultDecoder MSB)
     (take 10 [0x10, 0x41, 0x42, 0x43, 0, 2, 1, 2, 3, 4, 0, 1, 2, 3, 4, 5, 6, 7, 8]) =
     Return [0x41, 0x42, 0x43, 0x41, 0x42, 0x43, 1, 2, 3, 4] None \<and>
   Decode (defaultDecoder MSB)
     (take 13 [0x10, 0x41, 0x42, 0x43, 0, 2, 1, 2, 3, 4, 0, 1, 2, 3, 4, 5, 6, 7, 8]) =
     Return [0x41, 0x42, 0x43, 0x41, 0x42, 0x43, 1, 2, 3, 4, 1, 2] (Some ErrUnexpectedEOF)"
proof -
  let ?inp = "[0x10, 0x41, 0x42, 0x43, 0, 2, 1, 2, 3, 4, 0, 1, 2, 3, 4, 5, 6, 7, 8] :: byte list"
  let ?out = "[0x41, 0x42, 0x43, 0x41, 0x42, 0x43, 1, 2, 3, 4, 1, 2, 3, 4, 5, 6, 7, 8] :: byte list"
  have full: "Decode (defaultDecoder MSB) ?inp = Return ?out None" by code_simp
  have bs: "Decode_boundaries (defaultDecoder MSB) ?inp = [0, 10]" by code_simp
  have u5: "Decode_upto (defaultDecoder MSB) ?inp 5 = [0x41, 0x42, 0x43]" by code_simp
  have u10: "Decode_upto (defaultDecoder MSB) ?inp 10 =
               [0x41, 0x42, 0x43, 0x41, 0x42, 0x43, 1, 2, 3, 4]" by code_simp
  have u13: "Decode_upto (defaultDecoder MSB) ?inp 13 =
               [0x41, 0x42, 0x43, 0x41, 0x42, 0x43, 1, 2, 3, 4, 1, 2]" by code_simp
  have k5: "(5 :: nat) < length ?inp" and k10: "(10 :: nat) < length ?inp"
    and k13: "(13 :: nat) < length ?inp" by simp_all
  have c5: "Decode (defaultDecoder MSB) (take 5 ?inp) =
              Return [0x41, 0x42, 0x43] (Some ErrUnexpectedEOF)"
    using Decode_truncated [OF full k5] unfolding bs u5 by simp
  have c10: "Decode (defaultDecoder MSB) (take 10 ?inp) =
               Return [0x41, 0x42, 0x43, 0x41, 0x42, 0x43, 1, 2, 3, 4] None"
    using Decode_truncated [OF full k10] unfolding bs u10 by simp
  have c13: "Decode (defaultDecoder MSB) (take 13 ?inp) =
               Return [0x41, 0x42, 0x43, 0x41, 0x42, 0x43, 1, 2, 3, 4, 1, 2] (Some ErrUnexpectedEOF)"
    using Decode_truncated [OF full k13] unfolding bs u13 by simp
  show ?thesis using full bs c5 c10 c13 by (intro conjI)
qed


section \<open>Decode does not panic\<close>

lemma subround_safe:
  assumes br: "bounded_references d B"
    and thr: "0 \<le> threshold d" and B1: "1 \<le> B"
    and bound: "B * (int (length inp) + 1) \<le> MaxInt"
    and w: "w = int (length out)" and len: "int (length out) \<le> B * int r"
  shows "subround d inp flags i r w out \<noteq> Stop Panic"
    and "subround d inp flags i r w out = Continue r' w' out' \<Longrightarrow>
           w' = int (length out') \<and> int (length out') \<le> B * int r' \<and> r' \<le> length inp"
proof -
  have main: "subround d inp flags i r w out \<noteq> Stop Panic \<and>
    (subround d inp flags i r w out = Continue r' w' out' \<longrightarrow>
           w' = int (length out') \<and> int (length out') \<le> B * int r' \<and> r' \<le> length inp)"
  proof (cases "flagFunc d flags i")
    case True
    have "B * int r + 1 \<le> B * int (r + 1)" using B1 by (simp add: algebra_simps)
    with True w len show ?thesis by (auto simp: subround_def)
  next
    case lit: False
    show ?thesis
    proof (cases "r + NReferenceBytes > length inp")
      case True
      with lit show ?thesis by (simp add: subround_def)
    next
      case avail: False
      then have avail': "r + NReferenceBytes \<le> length inp" by simp
      have "length (take NReferenceBytes (drop r inp)) = NReferenceBytes"
        using avail by simp
      with br obtain n0 off where
        rf: "referenceFunc d (take NReferenceBytes (drop r inp)) (order d) = Some (n0, off)"
        and nB: "n0 + threshold d \<le> B" and omax: "off \<le> MaxInt"
        unfolding bounded_references_def by blast
      have rle: "int r \<le> int (length inp)" using avail by simp
      have Br: "B * int r \<le> B * int (length inp)"
        using rle B1 by (simp add: mult_left_mono)
      have BM: "B * int (length inp) + B \<le> MaxInt" using bound by (simp add: algebra_simps)
      have wM: "w + B \<le> MaxInt" using w len Br BM by simp
      show ?thesis
      proof (cases "n0 < 0")
        case True
        with reference_subround_negative_length [OF lit avail' rf True] show ?thesis by simp
      next
        case n0: False
        show ?thesis
        proof (cases "off < 0 \<or> w - 1 - off < 0")
          case True
          have "subround d inp flags i r w out = Stop (Return out (Some ErrOffset))"
            using reference_subround_bad_offset [OF lit avail' rf _ _ omax True] n0 w by simp
          then show ?thesis by simp
        next
          case False
          then have ok: "0 \<le> off" "off < w" by auto
          have rng: "w + n0 + threshold d \<le> MaxInt" using wM nB by simp
          have n0': "0 \<le> n0" using n0 by simp
          note R = reference_subround [OF lit avail' rf n0' ok(1) thr w ok(2) rng]
          show ?thesis
          proof (cases "w < (w - 1 - off) + (n0 + threshold d)")
            case True
            with R show ?thesis by simp
          next
            case fits: False
            define cp where "cp = take (nat (n0 + threshold d)) (drop (nat (w - 1 - off)) out)"
            have l1: "int (length cp) = n0 + threshold d"
              unfolding cp_def using fits w ok n0' thr by simp
            have C: "subround d inp flags i r w out =
                       Continue (r + NReferenceBytes) (w + (n0 + threshold d)) (out @ cp)"
              using R fits by (simp add: cp_def)
            have step: "B * int r + B \<le> B * int (r + NReferenceBytes)"
              using B1 by (simp add: algebra_simps NReferenceBytes_def NOffsetBits_def NFlags_def)
            have a: "w + (n0 + threshold d) = int (length (out @ cp))"
              using w l1 by simp
            have b: "int (length (out @ cp)) \<le> B * int (r + NReferenceBytes)"
              using len l1 nB step by simp
            show ?thesis
              unfolding C using a b avail' by auto
          qed
        qed
      qed
    qed
  qed
  from main show "subround d inp flags i r w out \<noteq> Stop Panic" by simp
  from main show "subround d inp flags i r w out = Continue r' w' out' \<Longrightarrow>
           w' = int (length out') \<and> int (length out') \<le> B * int r' \<and> r' \<le> length inp"
    by simp
qed

lemma subrounds_safe:
  assumes "bounded_references d B"
    and "0 \<le> threshold d" and "1 \<le> B"
    and "B * (int (length inp) + 1) \<le> MaxInt"
    and "w = int (length out)" and "int (length out) \<le> B * int r"
    and "r \<le> length inp"
  shows "subrounds d inp flags i r w out \<noteq> Stop Panic \<and>
         (\<forall>r' w' out'. subrounds d inp flags i r w out = Continue r' w' out' \<longrightarrow>
           w' = int (length out') \<and> int (length out') \<le> B * int r' \<and> r' \<le> length inp)"
  using assms
proof (induction d inp flags i r w out rule: subrounds.induct)
  case (1 d inp flags i r w out)
  note br = "1.prems"(1) and thr = "1.prems"(2) and B1 = "1.prems"(3) and bound = "1.prems"(4)
    and w = "1.prems"(5) and len = "1.prems"(6) and r = "1.prems"(7)
  show ?case
  proof (cases "i < NFlags")
    case False
    with w len r show ?thesis by (simp add: subrounds.simps [of d inp flags i])
  next
    case True
    show ?thesis
    proof (cases "subround d inp flags i r w out")
      case (Stop res)
      with subround_safe(1) [OF br thr B1 bound w len, of flags i] True show ?thesis
        by (auto simp: subrounds.simps [of d inp flags i])
    next
      case (Continue r1 w1 out1)
      from subround_safe(2) [OF br thr B1 bound w len Continue]
      have inv: "w1 = int (length out1)" "int (length out1) \<le> B * int r1" "r1 \<le> length inp"
        by simp_all
      have unf: "subrounds d inp flags i r w out = subrounds d inp flags (i + 1) r1 w1 out1"
        using True Continue by (simp add: subrounds.simps [of d inp flags i])
      from "1.IH" [OF True Continue br thr B1 bound inv] show ?thesis unfolding unf .
    qed
  qed
qed

lemma subrounds_errors:
  "subrounds d inp flags i r w out = Stop (Return out' e) \<Longrightarrow>
     e \<in> {Some ErrUnexpectedEOF, Some ErrChunkLength, Some ErrOffset}"
proof (induction d inp flags i r w out rule: subrounds.induct)
  case (1 d inp flags i r w out)
  show ?case
  proof (cases "i < NFlags")
    case False
    with "1.prems" show ?thesis by (simp add: subrounds.simps [of d inp flags i])
  next
    case True
    show ?thesis
    proof (cases "subround d inp flags i r w out")
      case (Stop res)
      with True "1.prems" have "subround d inp flags i r w out = Stop (Return out' e)"
        by (simp add: subrounds.simps [of d inp flags i])
      then show ?thesis
        unfolding subround_def Let_def
        by (simp split: if_split_asm option.split_asm prod.split_asm)
    next
      case (Continue r1 w1 out1)
      with True "1.prems" have "subrounds d inp flags (i + 1) r1 w1 out1 = Stop (Return out' e)"
        by (simp add: subrounds.simps [of d inp flags i])
      from "1.IH" [OF True Continue this] show ?thesis .
    qed
  qed
qed

lemma Decode_loop_safe:
  assumes "bounded_references d B"
    and "0 \<le> threshold d" and "1 \<le> B"
    and "B * (int (length inp) + 1) \<le> MaxInt"
    and "w = int (length out)" and "int (length out) \<le> B * int r"
    and "r \<le> length inp"
  shows "\<exists>out' e. Decode_loop d inp r w out = Return out' e \<and>
           e \<in> {None, Some ErrUnexpectedEOF, Some ErrChunkLength, Some ErrOffset}"
  using assms
proof (induction d inp r w out rule: Decode_loop.induct)
  case (1 d inp r w out)
  note br = "1.prems"(1) and thr = "1.prems"(2) and B1 = "1.prems"(3) and bound = "1.prems"(4)
    and w = "1.prems"(5) and len = "1.prems"(6) and r = "1.prems"(7)
  show ?case
  proof (cases "r < length inp")
    case False
    then show ?thesis by (simp add: Decode_loop.simps [of d inp r])
  next
    case rl: True
    show ?thesis
    proof (cases "inp ! r = 0")
      case z: True
      show ?thesis
      proof (cases "(r + 1) + NFlags > length inp")
        case True
        with rl z show ?thesis by (simp add: Decode_loop.simps [of d inp r])
      next
        case nine: False
        have unf: "Decode_loop d inp r w out =
                   Decode_loop d inp ((r + 1) + NFlags) (w + int NFlags)
                     (out @ take NFlags (drop (r + 1) inp))"
          using rl z nine by (simp add: Decode_loop.simps [of d inp r])
        have l8: "length (take NFlags (drop (r + 1) inp)) = NFlags" using nine by simp
        have a: "w + int NFlags = int (length (out @ take NFlags (drop (r + 1) inp)))"
          using w l8 by simp
        have "B * int r + int NFlags \<le> B * int ((r + 1) + NFlags)"
        proof -
          have "int NFlags \<le> B * int NFlags" using B1 by (simp add: mult_le_cancel_right1)
          moreover have "0 \<le> B" using B1 by simp
          ultimately show ?thesis by (simp add: algebra_simps)
        qed
        then have b: "int (length (out @ take NFlags (drop (r + 1) inp))) \<le>
                      B * int ((r + 1) + NFlags)"
          using len l8 by simp
        have c: "(r + 1) + NFlags \<le> length inp" using nine by simp
        from "1.IH"(1) [OF rl z nine br thr B1 bound a b c] show ?thesis unfolding unf .
      qed
    next
      case nz: False
      have r1: "r + 1 \<le> length inp" using rl by simp
      have len1: "int (length out) \<le> B * int (r + 1)"
      proof -
        have "0 \<le> B" using B1 by simp
        then have "B * int r \<le> B * int (r + 1)" by (simp add: algebra_simps)
        with len show ?thesis by simp
      qed
      note S = subrounds_safe [OF br thr B1 bound w len1 r1, of "inp ! r" 0]
      show ?thesis
      proof (cases "subrounds d inp (inp ! r) 0 (r + 1) w out")
        case (Stop res)
        with S obtain out' e where res: "res = Return out' e" by (cases res) auto
        have "Decode_loop d inp r w out = Return out' e"
          using rl nz Stop res by (simp add: Decode_loop.simps [of d inp r])
        moreover have "e \<in> {Some ErrUnexpectedEOF, Some ErrChunkLength, Some ErrOffset}"
          using subrounds_errors Stop res by blast
        ultimately show ?thesis by auto
      next
        case (Continue r1 w1 out1)
        with S have inv: "w1 = int (length out1)" "int (length out1) \<le> B * int r1"
          "r1 \<le> length inp" by simp_all
        have unf: "Decode_loop d inp r w out = Decode_loop d inp r1 w1 out1"
          using rl nz Continue by (simp add: Decode_loop.simps [of d inp r])
        from "1.IH"(2) [OF rl nz Continue br thr B1 bound inv] show ?thesis unfolding unf .
      qed
    qed
  qed
qed

lemma uint_high_nibble: "uint (drop_bit NLengthBits (hi :: byte)) \<le> 15"
proof -
  have "uint hi < 256" using uint_lt2p [of hi] by simp
  then show ?thesis by (simp add: NLengthBits_def drop_bit_eq_div uint_div)
qed

lemma default_bounded: "bounded_references (defaultDecoder ord) 18"
  unfolding bounded_references_def
proof (intro allI impI)
  fix bs :: "byte list"
  assume "length bs = NReferenceBytes"
  then have l2: "\<not> length bs < 2" by (simp add: NReferenceBytes_def NOffsetBits_def NFlags_def)
  have thr: "threshold (defaultDecoder ord) = 3"
    by (simp add: defaultDecoder_def DefaultThreshold_def ThresholdMin_def NReferenceBytes_def
        NOffsetBits_def NFlags_def)
  obtain n0 off where
    rf: "DefaultReferenceFunc bs ord = Some (n0, off)"
    and n0: "n0 = uint (drop_bit NLengthBits (if ord = LSB then bs ! 1 else bs ! 0))"
    and off: "off = uint (push_bit 8
                 (ucast ((if ord = LSB then bs ! 1 else bs ! 0) AND OffsetMask) :: 16 word) OR
               ucast (if ord = LSB then bs ! 0 else bs ! 1))"
    using l2 by (simp add: DefaultReferenceFunc_def Let_def)
  have "n0 \<le> 15" unfolding n0 by (rule uint_high_nibble)
  moreover have "off \<le> MaxInt"
  proof -
    have "off < 2 ^ 16" unfolding off
      using uint_lt2p [where 'a = 16] by simp
    then show ?thesis by (simp add: MaxInt_def)
  qed
  ultimately show "\<exists>n0 off. referenceFunc (defaultDecoder ord) bs (order (defaultDecoder ord)) =
                     Some (n0, off) \<and> n0 + threshold (defaultDecoder ord) \<le> 18 \<and> off \<le> MaxInt"
    using rf thr by (simp add: defaultDecoder_def)
qed

text \<open>
  C10, as the claim states it, fails: totality of the reference function is not enough.
  A reference function that returns the largest \<^verbatim>\<open>int\<close> as its length makes
  \<open>n + threshold\<close> wrap around to a negative number; both guards pass and the slice
  expression \<open>out[pos : pos + n]\<close> has a negative upper bound.
\<close>

theorem Decode_panic_counterexample:
  "NewCustomDecoder MSB (Some DefaultFlagFunc) (Some hugeReferenceFunc) DefaultThreshold =
     Inr \<lparr>order = MSB, threshold = DefaultThreshold, flagFunc = DefaultFlagFunc,
          referenceFunc = hugeReferenceFunc\<rparr> \<and>
   hugeReferenceFunc [0, 0] MSB = Some (MaxInt, 0) \<and>
   go_int (MaxInt + DefaultThreshold) = - 9223372036854775806 \<and>
   Decode \<lparr>order = MSB, threshold = DefaultThreshold, flagFunc = DefaultFlagFunc,
           referenceFunc = hugeReferenceFunc\<rparr> [0x40, 0x41, 0, 0] = Panic"
proof -
  have a: "NewCustomDecoder MSB (Some DefaultFlagFunc) (Some hugeReferenceFunc) DefaultThreshold =
           Inr \<lparr>order = MSB, threshold = DefaultThreshold, flagFunc = DefaultFlagFunc,
                referenceFunc = hugeReferenceFunc\<rparr>"
    by (simp add: NewCustomDecoder_def DefaultThreshold_def LSB_def MSB_def)
  have b: "hugeReferenceFunc [0, 0] MSB = Some (MaxInt, 0)"
    by (simp add: hugeReferenceFunc_def)
  have c: "go_int (MaxInt + DefaultThreshold) = - 9223372036854775806" by code_simp
  have d: "Decode \<lparr>order = MSB, threshold = DefaultThreshold, flagFunc = DefaultFlagFunc,
                   referenceFunc = hugeReferenceFunc\<rparr> [0x40, 0x41, 0, 0] = Panic"
    by code_simp
  show ?thesis by (intro conjI a b c d)
qed

text \<open>
  C10, amended. For every input and every decoder built by NewCustomDecoder whose
  reference function is total and bounded (on every NReferenceBytes-long argument it
  returns a length and an offset, the length plus the threshold at most \<open>B\<close>, with
  \<open>B * (len(in) + 1)\<close> inside the range of \<^verbatim>\<open>int\<close>), Decode does not panic: it returns
  an output with a nil error or with one of the unexpected-end, chunk-length and offset
  errors. Decode is a total function of the model: it terminates on every input.
\<close>

theorem Decode_never_panics:
  assumes built: "NewCustomDecoder ord ff rf thr = Inr d"
    and br: "bounded_references d B" and B1: "1 \<le> B"
    and bound: "B * (int (length inp) + 1) \<le> MaxInt"
  shows "\<exists>out e. Decode d inp = Return out e \<and>
           e \<in> {None, Some ErrUnexpectedEOF, Some ErrChunkLength, Some ErrOffset}"
proof -
  have "ThresholdMin \<le> threshold d"
    using built by (auto simp: NewCustomDecoder_def split: if_split_asm)
  then have thr: "0 \<le> threshold d" by (simp add: ThresholdMin_def)
  show ?thesis
    unfolding Decode_def
    by (rule Decode_loop_safe [OF br thr B1 bound]) simp_all
qed

theorem Decode_never_panics_witness:
  "NewCustomDecoder MSB (Some DefaultFlagFunc) (Some DefaultReferenceFunc) DefaultThreshold =
     Inr (defaultDecoder MSB) \<and>
   bounded_references (defaultDecoder MSB) 18 \<and>
   18 * (int (length [0x20, 0x41, 0x42, 0, 0 :: byte]) + 1) \<le> MaxInt \<and>
   (\<exists>out e. Decode (defaultDecoder MSB) [0x20, 0x41, 0x42, 0, 0] = Return out e \<and>
      e \<in> {None, Some ErrUnexpectedEOF, Some ErrChunkLength, Some ErrOffset})"
proof -
  have a: "NewCustomDecoder MSB (Some DefaultFlagFunc) (Some DefaultReferenceFunc)
             DefaultThreshold = Inr (defaultDecoder MSB)"
    using NewDecoder_default [of MSB] by (simp add: NewDecoder_def)
  have b: "bounded_references (defaultDecoder MSB) 18" by (rule default_bounded)
  have c: "18 * (int (length [0x20, 0x41, 0x42, 0, 0 :: byte]) + 1) \<le> MaxInt"
    by (simp add: MaxInt_def)
  have one: "(1 :: int) \<le> 18" by simp
  note T = Decode_never_panics [OF a b one c]
  show ?thesis using a b c T by (intro conjI)
qed

section \<open>The shortcut for a zero flag byte\<close>

lemma zero_subrounds:
  assumes "\<forall>i < NFlags. flagFunc d flags i" and "i \<le> NFlags" and "r \<le> length inp"
  shows "subrounds d inp flags i r w out =
           (if r + (NFlags - i) > length inp
            then Stop (Return (out @ drop r inp) (Some ErrUnexpectedEOF))
            else Continue (r + (NFlags - i)) (w + int (NFlags - i))
                   (out @ take (NFlags - i) (drop r inp)))"
  using assms
proof (induction d inp flags i r w out rule: subrounds.induct)
  case (1 d inp flags i r w out)
  note lit = "1.prems"(1) and i = "1.prems"(2) and r = "1.prems"(3)
  show ?case
  proof (cases "i < NFlags")
    case False
    with i have "NFlags - i = 0" by simp
    with False r show ?thesis by (simp add: subrounds.simps [of d inp flags i])
  next
    case True
    with lit have f: "flagFunc d flags i" by simp
    show ?thesis
    proof (cases "r \<ge> length inp")
      case eof: True
      with r have "r = length inp" by simp
      with True f show ?thesis
        by (simp add: subrounds.simps [of d inp flags i] subround_def)
    next
      case more: False
      then have s: "subround d inp flags i r w out = Continue (r + 1) (w + 1) (out @ [inp ! r])"
        using f by (simp add: subround_def)
      have unf: "subrounds d inp flags i r w out =
                 subrounds d inp flags (i + 1) (r + 1) (w + 1) (out @ [inp ! r])"
        using True s by (simp add: subrounds.simps [of d inp flags i])
      have i': "i + 1 \<le> NFlags" using True by simp
      have r': "r + 1 \<le> length inp" using more by simp
      have n: "NFlags - i = Suc (NFlags - (i + 1))" using True by simp
      have d: "drop r inp = inp ! r # drop (r + 1) inp"
        using more by (simp add: Cons_nth_drop_Suc)
      show ?thesis
        unfolding unf "1.IH" [OF True s lit i' r']
        by (simp add: n d)
    qed
  qed
qed

lemma Decode_loop_general_eq:
  assumes "\<forall>i < NFlags. flagFunc d 0 i"
  shows "Decode_loop d inp r w out = Decode_loop_general d inp r w out"
  using assms
proof (induction d inp r w out rule: Decode_loop.induct)
  case (1 d inp r w out)
  note lit = "1.prems"
  show ?case
  proof (cases "r < length inp")
    case False
    then show ?thesis
      by (simp add: Decode_loop.simps [of d inp r] Decode_loop_general.simps [of d inp r])
  next
    case rl: True
    then have r1: "r + 1 \<le> length inp" by simp
    show ?thesis
    proof (cases "inp ! r = 0")
      case z: True
      have zero0: "0 \<le> NFlags" by simp
      note Z = zero_subrounds [OF lit zero0 r1, of w out]
      show ?thesis
      proof (cases "(r + 1) + NFlags > length inp")
        case True
        with rl z Z show ?thesis
          by (simp add: Decode_loop.simps [of d inp r] Decode_loop_general.simps [of d inp r])
      next
        case nine: False
        from "1.IH"(1) [OF rl z nine lit] rl z nine Z show ?thesis
          by (simp add: Decode_loop.simps [of d inp r] Decode_loop_general.simps [of d inp r])
      qed
    next
      case nz: False
      show ?thesis
      proof (cases "subrounds d inp (inp ! r) 0 (r + 1) w out")
        case (Stop res)
        with rl nz show ?thesis
          by (simp add: Decode_loop.simps [of d inp r] Decode_loop_general.simps [of d inp r])
      next
        case (Continue r1 w1 out1)
        from "1.IH"(2) [OF rl nz Continue lit] rl nz Continue show ?thesis
          by (simp add: Decode_loop.simps [of d inp r] Decode_loop_general.simps [of d inp r])
      qed
    qed
  qed
qed


text \<open>
  C6. The shortcut is not the general path for every decoder. With a flag function of the
  opposite polarity a zero flag byte announces eight references; the stream below (eight
  literals, then eight references to the last three bytes) decodes on the general path
  to 32 bytes without error, and Decode copies the reference bytes as literals, takes
  the next reference byte for a flag byte and ends with the unexpected-end error.
\<close>

theorem shortcut_divergence:
  "NewCustomDecoder MSB (Some invertedFlagFunc) (Some DefaultReferenceFunc) DefaultThreshold =
     Inr invertedDecoder \<and>
   Decode invertedDecoder
     [0xFF, 0x41, 0x42, 0x43, 0x44, 0x45, 0x46, 0x47, 0x48,
      0, 0, 2, 0, 2, 0, 2, 0, 2, 0, 2, 0, 2, 0, 2, 0, 2] =
     Return [0x41, 0x42, 0x43, 0x44, 0x45, 0x46, 0x47, 0x48,
             0, 2, 0, 2, 0, 2, 0, 2, 2, 0, 2, 0, 2, 0, 2] (Some ErrUnexpectedEOF) \<and>
   Decode_general invertedDecoder
     [0xFF, 0x41, 0x42, 0x43, 0x44, 0x45, 0x46, 0x47, 0x48,
      0, 0, 2, 0, 2, 0, 2, 0, 2, 0, 2, 0, 2, 0, 2, 0, 2] =
     Return [0x41, 0x42, 0x43, 0x44, 0x45, 0x46, 0x47, 0x48,
             0x46, 0x47, 0x48, 0x46, 0x47, 0x48, 0x46, 0x47, 0x48, 0x46, 0x47, 0x48,
             0x46, 0x47, 0x48, 0x46, 0x47, 0x48, 0x46, 0x47, 0x48, 0x46, 0x47, 0x48] None"
proof -
  have a: "NewCustomDecoder MSB (Some invertedFlagFunc) (Some DefaultReferenceFunc)
             DefaultThreshold = Inr invertedDecoder"
    by (simp add: NewCustomDecoder_def invertedDecoder_def DefaultThreshold_def LSB_def MSB_def)
  have b: "Decode invertedDecoder
     [0xFF, 0x41, 0x42, 0x43, 0x44, 0x45, 0x46, 0x47, 0x48,
      0, 0, 2, 0, 2, 0, 2, 0, 2, 0, 2, 0, 2, 0, 2, 0, 2] =
     Return [0x41, 0x42, 0x43, 0x44, 0x45, 0x46, 0x47, 0x48,
             0, 2, 0, 2, 0, 2, 0, 2, 2, 0, 2, 0, 2, 0, 2] (Some ErrUnexpectedEOF)"
    by code_simp
  have c: "Decode_general invertedDecoder
     [0xFF, 0x41, 0x42, 0x43, 0x44, 0x45, 0x46, 0x47, 0x48,
      0, 0, 2, 0, 2, 0, 2, 0, 2, 0, 2, 0, 2, 0, 2, 0, 2] =
     Return [0x41, 0x42, 0x43, 0x44, 0x45, 0x46, 0x47, 0x48,
             0x46, 0x47, 0x48, 0x46, 0x47, 0x48, 0x46, 0x47, 0x48, 0x46, 0x47, 0x48,
             0x46, 0x47, 0x48, 0x46, 0x47, 0x48, 0x46, 0x47, 0x48, 0x46, 0x47, 0x48] None"
    by code_simp
  show ?thesis by (intro conjI a b c)
qed

text \<open>
  Where the flag function does answer "literal" at every position of a zero flag byte,
  the shortcut is the general path: Decode and the loop without the shortcut return the
  same output and the same error on every input, truncated ones included.
\<close>

theorem shortcut_equivalence:
  assumes "\<forall>i < NFlags. flagFunc d 0 i"
  shows "Decode d inp = Decode_general d inp"
  using Decode_loop_general_eq [OF assms] by (simp add: Decode_def Decode_general_def)

lemma DefaultFlagFunc_zero: "DefaultFlagFunc 0 i"
  by (simp add: DefaultFlagFunc_def)

theorem shortcut_equivalence_witness:
  "Decode_general (defaultDecoder MSB) [0, 1, 2, 3, 4, 5] =
     Return [1, 2, 3, 4, 5] (Some ErrUnexpectedEOF) \<and>
   Decode (defaultDecoder MSB) [0, 1, 2, 3, 4, 5] = Return [1, 2, 3, 4, 5] (Some ErrUnexpectedEOF)"
proof -
  have h: "\<forall>i < NFlags. flagFunc (defaultDecoder MSB) 0 i"
    by (simp add: defaultDecoder_def DefaultFlagFunc_zero)
  have g: "Decode_general (defaultDecoder MSB) [0, 1, 2, 3, 4, 5] =
             Return [1, 2, 3, 4, 5] (Some ErrUnexpectedEOF)"
    by code_simp
  from g shortcut_equivalence [OF h, of "[0, 1, 2, 3, 4, 5]"] show ?thesis by simp
qed

text \<open>
  In particular the decoders NewDecoder builds take the shortcut without any observable
  difference, on every input.
\<close>

theorem shortcut_equivalence_default:
  "Decode (defaultDecoder ord) inp = Decode_general (defaultDecoder ord) inp"
  by (rule shortcut_equivalence) (simp add: defaultDecoder_def DefaultFlagFunc_zero)

text \<open>
  The decoders NewDecoder builds do not panic, on any input of fewer than \<open>2^58\<close> bytes.
\<close>

theorem Decode_default_never_panics:
  assumes "18 * (int (length inp) + 1) \<le> MaxInt"
  shows "\<exists>out e. Decode (defaultDecoder ord) inp = Return out e \<and>
           e \<in> {None, Some ErrUnexpectedEOF, Some ErrChunkLength, Some ErrOffset}"
proof -
  have thr: "0 \<le> threshold (defaultDecoder ord)"
    by (simp add: defaultDecoder_def DefaultThreshold_def ThresholdMin_def)
  have one: "(1 :: int) \<le> 18" by simp
  show ?thesis
    unfolding Decode_def
    by (rule Decode_loop_safe [OF default_bounded thr one assms]) simp_all
qed

theorem Decode_default_never_panics_witness:
  "18 * (int (length [0x80, 0xFF, 0xFF :: byte]) + 1) \<le> MaxInt \<and>
   (\<exists>out e. Decode (defaultDecoder MSB) [0x80, 0xFF, 0xFF] = Return out e \<and>
      e \<in> {None, Some ErrUnexpectedEOF, Some ErrChunkLength, Some ErrOffset})"
proof -
  have b: "18 * (int (length [0x80, 0xFF, 0xFF :: byte]) + 1) \<le> MaxInt"
    by (simp add: MaxInt_def)
  note T = Decode_default_never_panics [OF b]
  show ?thesis using b T by (intro conjI)
qed

section \<open>The streaming reader after Close\<close>

lemma sizes: "ctlWidth = 8" "flushBuffer = 8192" "maxDecode = 144" "threshold_reader = 2" "sizeWidth = 4"
  by (simp_all add: ctlWidth_def flushBuffer_def windowSize_def offsetWidth_def maxDecode_def
      maxBytes_def threshold_reader_def sizeWidth_def)

lemmas reader_eval = ReadByte_def literal_def reference_def flush_def deferred_def after_def
  decode_def zeros.simps rounds.simps Read.simps toRead_len_def toRead_bytes_def Close_def
  NewReader_def copy_within_def sizes LSB_def MSB_def Let_def upt_conv_Cons

lemma Read_closed:
  assumes "d_err d = Some errClosed"
  shows "\<exists>d' bs e. Read d lb = Some (ReadOk d' bs e) \<and>
           d_err d' = Some errClosed \<and> d_r d' = d_r d \<and> d_calls d' = d_calls d \<and>
           (if toRead_len d = 0 then d' = d \<and> bs = [] \<and> e = Some errClosed
            else bs = take lb (toRead_bytes d) \<and> e = None \<and>
                 toRead_len d' = toRead_len d - min lb (toRead_len d))"
proof (cases "toRead_len d = 0")
  case True
  with assms have "Read d lb = Some (ReadOk d [] (Some errClosed))"
    by (subst Read.simps) simp
  with True assms show ?thesis by simp
next
  case False
  let ?d' = "d\<lparr>d_toRead := (fst (d_toRead d) + min lb (toRead_len d), snd (d_toRead d))\<rparr>"
  from False have "Read d lb = Some (ReadOk ?d' (take lb (toRead_bytes d)) None)"
    by (subst Read.simps) simp
  moreover have "toRead_len ?d' = toRead_len d - min lb (toRead_len d)"
    by (simp add: toRead_len_def)
  ultimately show ?thesis using False assms by simp
qed

lemma Close_idempotent: "Close (Close d) = Close d" "d_err (Close d) = Some errClosed"
  "d_r (Close d) = d_r d" "d_calls (Close d) = d_calls d" "d_toRead (Close d) = d_toRead d"
  by (simp_all add: Close_def)

text \<open>
  C9, as the claim states it, fails: bytes flushed before Close are still handed out after
  it, with a nil error. The source holds one block of eight literals; a first Read of
  four bytes decodes it and returns four; after Close the next Read returns the other
  four with a nil error, and only the one after that the closed error.
\<close>

theorem Read_after_Close_counterexample:
  "run (NewReader [0, 1, 2, 3, 4, 5, 6, 7, 8] LSB) [OpRead 4, OpClose, OpRead 4, OpRead 4] =
     Some [([1, 2, 3, 4], None), ([5, 6, 7, 8], None), ([], Some errClosed)]"
  by (simp add: reader_eval)

text \<open>
  C9, amended. Close sets the closed error whatever the state was, touches nothing else
  and is idempotent. In a closed reader every Read returns at once, runs no decode
  step and makes no call on the source; the reader stays closed. With no flushed bytes
  pending it returns the closed error and leaves the reader as it is, so from then on
  every Read does; while flushed bytes are pending it hands out the next
  \<open>min(len(b), pending)\<close> of them with a nil error.
\<close>

theorem Read_after_Close:
  "d_err (Close d0) = Some errClosed \<and> Close (Close d0) = Close d0 \<and>
   d_r (Close d0) = d_r d0 \<and> d_calls (Close d0) = d_calls d0 \<and>
   d_toRead (Close d0) = d_toRead d0 \<and>
   (d_err d = Some errClosed \<longrightarrow>
      (\<exists>d' bs e. Read d lb = Some (ReadOk d' bs e) \<and>
         d_err d' = Some errClosed \<and> d_r d' = d_r d \<and> d_calls d' = d_calls d \<and>
         (if toRead_len d = 0 then d' = d \<and> bs = [] \<and> e = Some errClosed
          else bs = take lb (toRead_bytes d) \<and> e = None \<and>
               toRead_len d' = toRead_len d - min lb (toRead_len d))))"
  using Read_closed [of d lb] by (simp add: Close_idempotent)

theorem Read_after_Close_witness:
  "d_err (Close (NewReader [1, 2, 3] LSB)) = Some errClosed \<and>
   (\<exists>d' bs e. Read (Close (NewReader [1, 2, 3] LSB)) 4 = Some (ReadOk d' bs e) \<and>
      bs = [] \<and> e = Some errClosed \<and> d_r d' = [1, 2, 3] \<and> d_calls d' = 0)"
proof -
  let ?d = "Close (NewReader [1, 2, 3] LSB)"
  note T = Read_after_Close [of "NewReader [1, 2, 3] LSB" ?d 4]
  from T have c: "d_err ?d = Some errClosed" by simp
  have t: "toRead_len ?d = 0"
    by (simp add: toRead_len_def Close_def NewReader_def LSB_def MSB_def)
  have r: "d_r ?d = [1, 2, 3]" "d_calls ?d = 0"
    by (simp_all add: Close_def NewReader_def LSB_def MSB_def)
  from T c have "\<exists>d' bs e. Read ?d 4 = Some (ReadOk d' bs e) \<and>
         d_err d' = Some errClosed \<and> d_r d' = d_r ?d \<and> d_calls d' = d_calls ?d \<and>
         (if toRead_len ?d = 0 then d' = ?d \<and> bs = [] \<and> e = Some errClosed
          else bs = take 4 (toRead_bytes ?d) \<and> e = None \<and>
               toRead_len d' = toRead_len ?d - min 4 (toRead_len ?d))"
    by blast
  then obtain d' bs e where "Read ?d 4 = Some (ReadOk d' bs e)" "d' = ?d" "bs = []"
    "e = Some errClosed"
    unfolding t by auto
  with c r show ?thesis by auto
qed

section \<open>The streaming reader across a flush\<close>

lemma literal_step:
  assumes "d_r d = b # rest" and "0 \<le> d_o d" and "d_o d < int (flushBuffer + maxDecode)"
  shows "literal d =
           Go (d\<lparr>d_r := rest, d_calls := d_calls d + 1,
                 d_output := (d_output d)(nat (d_o d) := b), d_err := None,
                 d_o := d_o d + 1\<rparr>)"
  using assms by (simp add: literal_def ReadByte_def)

lemma zeros_run:
  assumes "i \<le> ctlWidth" and "d_r d = replicate (ctlWidth - i) c @ rest"
    and "0 \<le> d_o d" and "d_o d + int (ctlWidth - i) \<le> int (flushBuffer + maxDecode)"
    and "d_err d = None" and "filled d c"
  shows "\<exists>d'. zeros d i = Go d' \<and> d_r d' = rest \<and> d_o d' = d_o d + int (ctlWidth - i) \<and>
           d_err d' = None \<and> d_toRead d' = d_toRead d \<and> d_order d' = d_order d \<and>
           filled d' c"
  using assms
proof (induction d i rule: zeros.induct)
  case (1 d i)
  show ?case
  proof (cases "i < ctlWidth")
    case False
    then have z: "zeros d i = Go d" by (simp add: zeros.simps [of d i])
    from False "1.prems"(1) have "ctlWidth - i = 0" by simp
    with "1.prems" show ?thesis unfolding z by simp
  next
    case True
    then have rep: "replicate (ctlWidth - i) c = c # replicate (ctlWidth - (i + 1)) c"
      by (cases "ctlWidth - i") (simp_all add: Suc_diff_Suc)
    let ?d1 = "d\<lparr>d_r := replicate (ctlWidth - (i + 1)) c @ rest, d_calls := d_calls d + 1,
                 d_output := (d_output d)(nat (d_o d) := c), d_err := None,
                 d_o := d_o d + 1\<rparr>"
    have r: "d_r d = c # (replicate (ctlWidth - (i + 1)) c @ rest)"
      using "1.prems"(2) rep by simp
    have lt: "d_o d < int (flushBuffer + maxDecode)" using "1.prems"(4) True by simp
    have l: "literal d = Go ?d1" using literal_step [OF r "1.prems"(3) lt] .
    have unf: "zeros d i = zeros ?d1 (i + 1)"
      using True l by (simp add: zeros.simps [of d i])
    have f: "filled ?d1 c"
      using "1.prems"(6) "1.prems"(3) unfolding filled_def by (auto simp: nat_less_iff)
    have a: "i + 1 \<le> ctlWidth" using True by simp
    have b: "d_r ?d1 = replicate (ctlWidth - (i + 1)) c @ rest" by simp
    have c0: "0 \<le> d_o ?d1" using "1.prems"(3) by simp
    have c1: "d_o ?d1 + int (ctlWidth - (i + 1)) \<le> int (flushBuffer + maxDecode)"
      using "1.prems"(4) True by simp
    have e: "d_err ?d1 = None" by simp
    from "1.IH" [OF True l a b c0 c1 e f] True show ?thesis
      unfolding unf by auto
  qed
qed

lemma decode_block:
  assumes r: "d_r d = block c @ rest"
    and o0: "0 \<le> d_o d" and ob: "d_o d + int ctlWidth \<le> int flushBuffer"
    and e: "d_err d = None" and f: "filled d c"
  shows "\<exists>d'. decode d = Some d' \<and> d_r d' = rest \<and> d_err d' = None \<and>
           d_order d' = d_order d \<and>
           (if d_o d + int ctlWidth < int flushBuffer
            then d_o d' = d_o d + int ctlWidth \<and> d_toRead d' = d_toRead d \<and> filled d' c
            else d_o d' = 0 \<and> d_toRead d' = (0, flushBuffer) \<and>
                 toRead_bytes d' = replicate flushBuffer c)"
proof -
  let ?d1 = "d\<lparr>d_r := replicate ctlWidth c @ rest, d_calls := d_calls d + 1\<rparr>"
  have rb: "ReadByte d = (?d1, 0, None)"
    using r by (simp add: ReadByte_def block_def)
  have dec: "decode d = after (zeros ?d1 0)"
    using rb e by (simp add: decode_def)
  have z0: "(0 :: nat) \<le> ctlWidth" by simp
  have r1: "d_r ?d1 = replicate (ctlWidth - 0) c @ rest" by simp
  have o1: "0 \<le> d_o ?d1" using o0 by simp
  have b1: "d_o ?d1 + int (ctlWidth - 0) \<le> int (flushBuffer + maxDecode)" using ob by simp
  have e1: "d_err ?d1 = None" using e by simp
  have f1: "filled ?d1 c" using f by (simp add: filled_def)
  from zeros_run [OF z0 r1 o1 b1 e1 f1] obtain d2 where
    z: "zeros ?d1 0 = Go d2" and r2: "d_r d2 = rest" and o2: "d_o d2 = d_o d + int ctlWidth"
    and e2: "d_err d2 = None" and t2: "d_toRead d2 = d_toRead d" and ord2: "d_order d2 = d_order d"
    and f2: "filled d2 c"
    by auto
  have dec2: "decode d = deferred d2" using dec z by (simp add: after_def)
  show ?thesis
  proof (cases "d_o d + int ctlWidth < int flushBuffer")
    case True
    then have "deferred d2 = Some d2" using o2 e2 by (simp add: deferred_def)
    with dec2 r2 o2 e2 t2 ord2 f2 True show ?thesis by simp
  next
    case False
    with ob have full: "d_o d2 = int flushBuffer" using o2 by simp
    let ?d3 = "d2\<lparr>d_toRead := (0, flushBuffer), d_o := 0\<rparr>"
    have "deferred d2 = Some ?d3"
      using full e2 by (simp add: deferred_def flush_def)
    moreover have "toRead_bytes ?d3 = replicate flushBuffer c"
    proof -
      have "\<forall>j \<in> set [0..<flushBuffer]. d_output d2 j = c"
        using f2 full by (simp add: filled_def)
      then have "map (d_output d2) [0..<flushBuffer] = map (\<lambda>_. c) [0..<flushBuffer]"
        by (intro map_cong) auto
      then show ?thesis by (simp add: toRead_bytes_def map_replicate_const)
    qed
    ultimately show ?thesis using dec2 r2 e2 ord2 False by simp
  qed
qed

lemma Read_decode:
  assumes "toRead_len d = 0" and "d_err d = None" and "decode d = Some d'"
  shows "Read d lb = Read d' lb"
  using assms by (subst Read.simps) simp

lemma Read_blocks:
  assumes "d_r d = concat (replicate (Suc k) (block c)) @ rest"
    and "d_o d + int (Suc k * ctlWidth) = int flushBuffer" and "0 \<le> d_o d"
    and "d_err d = None" and "toRead_len d = 0" and "filled d c"
  shows "\<exists>d1. Read d lb = Some (ReadOk d1 (take lb (replicate flushBuffer c)) None) \<and>
           d_r d1 = rest \<and> d_err d1 = None \<and> d_o d1 = 0 \<and> d_order d1 = d_order d \<and>
           toRead_len d1 = flushBuffer - min lb flushBuffer"
  using assms
proof (induction k arbitrary: d)
  case 0
  have r: "d_r d = block c @ rest" using "0.prems"(1) by simp
  have ob: "d_o d + int ctlWidth \<le> int flushBuffer" using "0.prems"(2) by simp
  have nlt: "\<not> d_o d + int ctlWidth < int flushBuffer" using "0.prems"(2) by simp
  from decode_block [OF r "0.prems"(3) ob "0.prems"(4) "0.prems"(6)] nlt
  obtain d' where dec: "decode d = Some d'" and r': "d_r d' = rest" and e': "d_err d' = None"
    and ord': "d_order d' = d_order d" and o': "d_o d' = 0"
    and t': "d_toRead d' = (0, flushBuffer)" and b': "toRead_bytes d' = replicate flushBuffer c"
    by auto
  have len: "toRead_len d' = flushBuffer" using t' by (simp add: toRead_len_def)
  have pos: "0 < flushBuffer" by (simp add: flushBuffer_def windowSize_def)
  let ?d1 = "d'\<lparr>d_toRead := (fst (d_toRead d') + min lb (toRead_len d'), snd (d_toRead d'))\<rparr>"
  have "Read d' lb = Some (ReadOk ?d1 (take lb (toRead_bytes d')) None)"
    using len pos by (subst Read.simps) simp
  then have "Read d lb = Some (ReadOk ?d1 (take lb (replicate flushBuffer c)) None)"
    using Read_decode [OF "0.prems"(5) "0.prems"(4) dec] b' by simp
  moreover have "toRead_len ?d1 = flushBuffer - min lb flushBuffer"
    using t' len by (simp add: toRead_len_def)
  ultimately show ?case using r' e' o' ord' by auto
next
  case (Suc k)
  have r: "d_r d = block c @ (concat (replicate (Suc k) (block c)) @ rest)"
    using Suc.prems(1) by simp
  have ob: "d_o d + int ctlWidth \<le> int flushBuffer"
    using Suc.prems(2) by (simp add: ctlWidth_def)
  have lt: "d_o d + int ctlWidth < int flushBuffer"
    using Suc.prems(2) by (simp add: ctlWidth_def)
  from decode_block [OF r Suc.prems(3) ob Suc.prems(4) Suc.prems(6)] lt
  obtain d' where dec: "decode d = Some d'"
    and r': "d_r d' = concat (replicate (Suc k) (block c)) @ rest" and e': "d_err d' = None"
    and ord': "d_order d' = d_order d" and o': "d_o d' = d_o d + int ctlWidth"
    and t': "d_toRead d' = d_toRead d" and f': "filled d' c"
    by auto
  have o2: "d_o d' + int (Suc k * ctlWidth) = int flushBuffer"
    using o' Suc.prems(2) by (simp add: algebra_simps)
  have o0: "0 \<le> d_o d'" using o' Suc.prems(3) by simp
  have tl: "toRead_len d' = 0" using t' Suc.prems(5) by (simp add: toRead_len_def)
  from Suc.IH [OF r' o2 o0 e' tl f'] ord'
  show ?case unfolding Read_decode [OF Suc.prems(5) Suc.prems(4) dec] by simp
qed

lemma relOff_positive: "0 < uint (drop_bit 4 (code :: 16 word) + 1)"
proof -
  have "\<not> bit code 19"
  proof
    assume "bit code 19"
    then have "19 < LENGTH(16)" by (rule bit_imp_le_length)
    then show False by simp
  qed
  then have "\<not> bit (drop_bit 4 code) 15" by (simp add: bit_drop_bit_eq)
  moreover have "bit (- 1 :: 16 word) 15" by simp
  ultimately have "drop_bit 4 code \<noteq> - 1" by metis
  then have "drop_bit 4 code + 1 \<noteq> 0" by (simp add: eq_neg_iff_add_eq_0)
  then have "uint (drop_bit 4 code + 1) \<noteq> 0" by (simp add: uint_0_iff)
  then show ?thesis using uint_ge_0 [of "drop_bit 4 code + 1"] by linarith
qed

lemma reference_after_flush:
  assumes "d_r d = lo # hi # rest" and "d_o d = 0"
  shows "\<exists>d'. reference d = Ret d' \<and> d_err d' = Some errRelativeOffset \<and> d_o d' = 0 \<and>
           d_toRead d' = d_toRead d"
  using assms relOff_positive
  by (simp add: reference_def ReadByte_def Let_def del: drop_bit_or)

lemma decode_reference_after_flush:
  assumes r: "d_r d = ctl # lo # hi # rest" and c: "ctl AND 0x80 \<noteq> 0"
    and o: "d_o d = 0" and e: "d_err d = None"
  shows "\<exists>d'. decode d = Some d' \<and> d_err d' = Some errRelativeOffset \<and> toRead_len d' = 0"
proof -
  let ?d1 = "d\<lparr>d_r := lo # hi # rest, d_calls := d_calls d + 1\<rparr>"
  have c0: "ctl \<noteq> 0" using c by auto
  have rb: "ReadByte d = (?d1, ctl, None)" using r by (simp add: ReadByte_def)
  have dec: "decode d = after (rounds ?d1 ctl 0)"
    using rb e c0 by (simp add: decode_def)
  have "d_r ?d1 = lo # hi # rest" "d_o ?d1 = 0" using o by simp_all
  from reference_after_flush [OF this] obtain d2 where
    "reference ?d1 = Ret d2" and e2: "d_err d2 = Some errRelativeOffset" and o2: "d_o d2 = 0"
    by auto
  then have "rounds ?d1 ctl 0 = Ret d2"
    using c by (subst rounds.simps) (simp add: ctlWidth_def)
  then have "decode d = flush d2"
    using dec e2 by (simp add: after_def deferred_def)
  then show ?thesis using e2 o2 by (simp add: flush_def toRead_len_def)
qed

lemma Read_reference_after_flush:
  assumes "d_r d = ctl # lo # hi # rest" and "ctl AND 0x80 \<noteq> 0"
    and "d_o d = 0" and "d_err d = None" and "toRead_len d = 0"
  shows "\<exists>d'. Read d lb = Some (ReadOk d' [] (Some errRelativeOffset))"
proof -
  from decode_reference_after_flush [OF assms(1-4)] obtain d' where
    dec: "decode d = Some d'" and e: "d_err d' = Some errRelativeOffset" and t: "toRead_len d' = 0"
    by auto
  have "Read d' lb = Some (ReadOk d' [] (Some errRelativeOffset))"
    using e t by (subst Read.simps) simp
  then show ?thesis using Read_decode [OF assms(5) assms(4) dec] by simp
qed

text \<open>
  C8. A flush does not keep the window. The stream \<open>long_stream\<close> is well formed: 1024
  blocks of eight literals A, then a reference to the byte just written. The first Read
  returns the 8192 bytes, flushed when the write index reached flushBuffer; the flush
  has reset the write index to 0, so the reference, one byte back, computes a negative
  copy start and the second Read returns the offset error.
\<close>

theorem flush_loses_window:
  "\<exists>d1 d2. Read (NewReader long_stream LSB) flushBuffer =
              Some (ReadOk d1 (replicate flushBuffer 0x41) None) \<and>
            Read d1 flushBuffer = Some (ReadOk d2 [] (Some errRelativeOffset))"
proof -
  let ?d = "NewReader long_stream LSB"
  let ?rest = "[0x80, 0, 0, 1, 2, 3, 4, 5, 6, 7] :: byte list"
  have r: "d_r ?d = concat (replicate (Suc 1023) (block 0x41)) @ ?rest"
    by (simp add: NewReader_def long_stream_def LSB_def MSB_def)
  have o: "d_o ?d + int (Suc 1023 * ctlWidth) = int flushBuffer"
    by (simp add: NewReader_def LSB_def MSB_def sizes)
  have o0: "0 \<le> d_o ?d" and e: "d_err ?d = None" and t: "toRead_len ?d = 0"
    and f: "filled ?d 0x41"
    by (simp_all add: NewReader_def LSB_def MSB_def toRead_len_def filled_def)
  from Read_blocks [OF r o o0 e t f, of flushBuffer] obtain d1 where
    R1: "Read ?d flushBuffer = Some (ReadOk d1 (replicate flushBuffer 0x41) None)"
    and r1: "d_r d1 = ?rest" and e1: "d_err d1 = None" and o1: "d_o d1 = 0"
    and t1: "toRead_len d1 = 0"
    by auto
  have c: "(0x80 :: byte) AND 0x80 \<noteq> 0" by simp
  from Read_reference_after_flush [OF r1 c o1 e1 t1, of flushBuffer] obtain d2 where
    "Read d1 flushBuffer = Some (ReadOk d2 [] (Some errRelativeOffset))" by auto
  with R1 show ?thesis by blast
qed


end
